theory Spec2Isabelle
  imports Main "HOL-Library.AList"
begin

section \<open>The part of the DOM that the delegation code reads\<close>

text \<open>
  The delegation code touches the document through five platform operations only:
  \<^verbatim>\<open>node.nodeType\<close>, \<^verbatim>\<open>node.parentElement\<close>, \<^verbatim>\<open>element.closest(selector)\<close>,
  \<^verbatim>\<open>root.contains(node)\<close> and the listener list of the root
  (\<^verbatim>\<open>addEventListener\<close> / \<^verbatim>\<open>removeEventListener\<close>).

  A node is a value that carries its own parent chain, as the JavaScript object carries
  its \<^verbatim>\<open>parentNode\<close> reference. The datatype is well founded, which is the acyclicity of
  the DOM tree. \<open>nid\<close> stands for the identity of the JavaScript object.
\<close>

datatype node_kind =
  ELEMENT_NODE | TEXT_NODE | COMMENT_NODE | DOCUMENT_NODE | DOCUMENT_FRAGMENT_NODE

datatype node =
  Node (nid: nat) (nodeType: node_kind) (tagName: string) (classList: "string list")
       (parentNode: "node option")

datatype js_error = TypeError | SyntaxError

text \<open>\<^verbatim>\<open>node.parentElement\<close>: the parent when it is an element, otherwise null.\<close>

definition parentElement :: "node \<Rightarrow> node option" where
  "parentElement n =
     (case parentNode n of
        None \<Rightarrow> None
      | Some p \<Rightarrow> if nodeType p = ELEMENT_NODE then Some p else None)"

text \<open>The inclusive ancestors of a node, nearest first.\<close>

fun inclusive_ancestors :: "node \<Rightarrow> node list" where
  "inclusive_ancestors (Node i k tg cl par) =
     Node i k tg cl par # (case par of None \<Rightarrow> [] | Some p \<Rightarrow> inclusive_ancestors p)"

text \<open>
  The selector engine of the platform is a parameter: it parses a selector string into a
  predicate on (scoping element, candidate element), or rejects the string. A rejected
  selector makes \<^verbatim>\<open>closest\<close> throw a SyntaxError.
\<close>

type_synonym selector_engine = "string \<Rightarrow> (node \<Rightarrow> node \<Rightarrow> bool) option"

text \<open>
  \<^verbatim>\<open>element.closest(selector)\<close>: the first inclusive ancestor that is an element and
  matches the selector, or null.
\<close>

definition closest :: "selector_engine \<Rightarrow> node \<Rightarrow> string \<Rightarrow> js_error + node option" where
  "closest css el selector =
     (case css selector of
        None \<Rightarrow> Inl SyntaxError
      | Some p \<Rightarrow>
          Inr (find (\<lambda>a. nodeType a = ELEMENT_NODE \<and> p el a) (inclusive_ancestors el)))"

text \<open>\<^verbatim>\<open>root.contains(other)\<close>: \<open>other\<close> is \<open>root\<close> or one of its descendants.\<close>

definition contains :: "node \<Rightarrow> node \<Rightarrow> bool" where
  "contains root other = (root \<in> set (inclusive_ancestors other))"

section \<open>Events, logical handlers and physical listeners\<close>

record event =
  ev_id :: nat
  ev_type :: string
  target :: "node option"

text \<open>
  A logical handler is an opaque callback of the application, named by a number. What
  it does is outside the library; the one observable fact is that it was called, with which
  \<^verbatim>\<open>this\<close>, which event and which matched element.
\<close>

type_synonym handler = nat

datatype call = Call (c_handler: handler) (c_this: nat) (c_event: event) (c_target: node)

text \<open>
  A physical listener is the closure \<^verbatim>\<open>delegatedHandler\<close> that \<^verbatim>\<open>delegate\<close> creates. Its
  environment holds the arguments of that call and \<^verbatim>\<open>this\<close>; \<open>lid\<close> is the identity of
  the closure object (every call of \<^verbatim>\<open>delegate\<close> creates a new one).
\<close>

record listener =
  lid :: nat
  l_eventType :: string
  l_selector :: string
  l_handler :: handler
  l_this :: nat

text \<open>
  The body of the closure in the function-based implementation:
  \<^verbatim>\<open>
    const eventTarget = event.target as Node | null
    if (!eventTarget) return
    const element = eventTarget.nodeType === Node.ELEMENT_NODE
                      ? (eventTarget as Element) : eventTarget.parentElement
    const target = element?.closest(selector)
    if (target && this.element.contains(target)) {
      handler.call(this, event, target)
    }
  \<close>
  The result is the exception the body throws, or the list of calls of the logical
  handler it makes. \<open>origin_element\<close> is the constant \<^verbatim>\<open>element\<close> of the body.
\<close>

definition origin_element :: "node \<Rightarrow> node option" where
  "origin_element eventTarget =
     (if nodeType eventTarget = ELEMENT_NODE then Some eventTarget
      else parentElement eventTarget)"

definition delegatedHandler ::
  "selector_engine \<Rightarrow> node \<Rightarrow> listener \<Rightarrow> event \<Rightarrow> js_error + call list" where
  "delegatedHandler css root l event =
     (case target event of
        None \<Rightarrow> Inr []
      | Some eventTarget \<Rightarrow>
          (case origin_element eventTarget of
             None \<Rightarrow> Inr []
           | Some element \<Rightarrow>
               (case closest css element (l_selector l) of
                  Inl e \<Rightarrow> Inl e
                | Inr None \<Rightarrow> Inr []
                | Inr (Some tgt) \<Rightarrow>
                    if contains root tgt
                    then Inr [Call (l_handler l) (l_this l) event tgt]
                    else Inr [])))"

text \<open>
  The body of the closure in the object-mixin implementation:
  \<^verbatim>\<open>
    const target = (event.target as Element)?.closest(selector)
    if (target && this.element.contains(target)) {
      handler.call(this, event, target)
    }
  \<close>
  The cast is erased at run time. Only elements have a \<^verbatim>\<open>closest\<close> method, so on any
  other node the call throws a TypeError.
\<close>

definition delegatedHandler_mixin ::
  "selector_engine \<Rightarrow> node \<Rightarrow> listener \<Rightarrow> event \<Rightarrow> js_error + call list" where
  "delegatedHandler_mixin css root l event =
     (case target event of
        None \<Rightarrow> Inr []
      | Some eventTarget \<Rightarrow>
          if nodeType eventTarget \<noteq> ELEMENT_NODE then Inl TypeError
          else
            (case closest css eventTarget (l_selector l) of
               Inl e \<Rightarrow> Inl e
             | Inr None \<Rightarrow> Inr []
             | Inr (Some tgt) \<Rightarrow>
                 if contains root tgt
                 then Inr [Call (l_handler l) (l_this l) event tgt]
                 else Inr []))"

section \<open>The controller and its registry\<close>

text \<open>
  \<^verbatim>\<open>delegatedEvents\<close> is a JavaScript \<^verbatim>\<open>Map\<close>: an association list in insertion order
  with at most one entry per key. \<^verbatim>\<open>Map.set\<close> on a present key replaces the value in
  place and otherwise appends; \<^verbatim>\<open>Map.delete\<close> removes the entry.

  \<open>element_listeners\<close> is the event listener list of \<^verbatim>\<open>this.element\<close>, the root node:
  pairs of an event type and a callback, in attachment order. \<open>next_lid\<close> is the
  identity that the next closure receives. The type parameter is the type of the
  \<^verbatim>\<open>delegatedEvents\<close> field: the map itself in the function-based implementation, an
  optional map in the object mixin.
\<close>

type_synonym registry = "(string \<times> listener) list"

record 'm controller =
  cid :: nat
  element :: node
  delegatedEvents :: 'm
  element_listeners :: "(string \<times> listener) list"
  next_lid :: nat

text \<open>
  \<^verbatim>\<open>addEventListener(type, callback)\<close> appends the pair unless the list already holds
  it; \<^verbatim>\<open>removeEventListener(type, callback)\<close> removes the pair with that type and that
  callback when there is one.
\<close>

definition addEventListener ::
  "string \<Rightarrow> listener \<Rightarrow> (string \<times> listener) list \<Rightarrow> (string \<times> listener) list" where
  "addEventListener type callback ls =
     (if (type, callback) \<in> set ls then ls else ls @ [(type, callback)])"

definition removeEventListener ::
  "string \<Rightarrow> listener \<Rightarrow> (string \<times> listener) list \<Rightarrow> (string \<times> listener) list" where
  "removeEventListener type callback ls = remove1 (type, callback) ls"

text \<open>The key: the template literal \<^verbatim>\<open>`${eventType}:${selector}`\<close>.\<close>

definition key_of :: "string \<Rightarrow> string \<Rightarrow> string" where
  "key_of eventType selector = eventType @ '':'' @ selector"

text \<open>\<^verbatim>\<open>String.prototype.split\<close> with a one-character separator.\<close>

fun split :: "char \<Rightarrow> string \<Rightarrow> string list" where
  "split sep [] = [[]]"
| "split sep (c # cs) =
     (if c = sep then [] # split sep cs
      else (case split sep cs of
              [] \<Rightarrow> [[c]]
            | w # ws \<Rightarrow> (c # w) # ws))"

text \<open>
  \<^verbatim>\<open>const [eventType] = key.split(':')\<close>: the first piece. The array that \<^verbatim>\<open>split\<close>
  returns is never empty, so the first branch below is never taken.
\<close>

definition key_eventType :: "string \<Rightarrow> string" where
  "key_eventType key = (case split (CHR '':'') key of [] \<Rightarrow> [] | w # ws \<Rightarrow> w)"

subsection \<open>The function-based implementation\<close>

text \<open>
  \<^verbatim>\<open>useDelegation(controller)\<close> installs an empty map. The listener list of the root
  starts with no delegation closures on it.
\<close>

definition useDelegation :: "nat \<Rightarrow> node \<Rightarrow> registry controller" where
  "useDelegation c root =
     \<lparr>cid = c, element = root, delegatedEvents = [], element_listeners = [], next_lid = 0\<rparr>"

text \<open>
  The closure that a call of \<^verbatim>\<open>delegate\<close> creates: a new object, whose environment holds
  the arguments of the call and \<^verbatim>\<open>this\<close>.
\<close>

definition new_closure :: "'m controller \<Rightarrow> string \<Rightarrow> string \<Rightarrow> handler \<Rightarrow> listener" where
  "new_closure this eventType selector handler =
     \<lparr>lid = next_lid this, l_eventType = eventType, l_selector = selector,
      l_handler = handler, l_this = cid this\<rparr>"

definition delegate ::
  "string \<Rightarrow> string \<Rightarrow> handler \<Rightarrow> registry controller \<Rightarrow> registry controller" where
  "delegate eventType selector handler this =
     (let key = key_of eventType selector;
          ls = (case map_of (delegatedEvents this) key of
                  Some existingHandler \<Rightarrow>
                    removeEventListener eventType existingHandler (element_listeners this)
                | None \<Rightarrow> element_listeners this);
          dh = new_closure this eventType selector handler
      in this\<lparr>delegatedEvents := AList.update key dh (delegatedEvents this),
              element_listeners := addEventListener eventType dh ls,
              next_lid := Suc (next_lid this)\<rparr>)"

definition undelegate ::
  "string \<Rightarrow> string \<Rightarrow> registry controller \<Rightarrow> registry controller" where
  "undelegate eventType selector this =
     (let key = key_of eventType selector
      in case map_of (delegatedEvents this) key of
           Some handler \<Rightarrow>
             this\<lparr>element_listeners :=
                     removeEventListener eventType handler (element_listeners this),
                  delegatedEvents := AList.delete key (delegatedEvents this)\<rparr>
         | None \<Rightarrow> this)"

text \<open>The loop of \<^verbatim>\<open>undelegateAll\<close> over the entries of the map, in insertion order.\<close>

fun removeAll_listeners ::
  "registry \<Rightarrow> (string \<times> listener) list \<Rightarrow> (string \<times> listener) list" where
  "removeAll_listeners [] ls = ls"
| "removeAll_listeners ((key, handler) # entries) ls =
     removeAll_listeners entries (removeEventListener (key_eventType key) handler ls)"

definition undelegateAll :: "registry controller \<Rightarrow> registry controller" where
  "undelegateAll this =
     this\<lparr>element_listeners :=
             removeAll_listeners (delegatedEvents this) (element_listeners this),
          delegatedEvents := []\<rparr>"

text \<open>
  The wrapped \<^verbatim>\<open>disconnect\<close>: \<^verbatim>\<open>undelegateAll\<close>, then the original \<^verbatim>\<open>disconnect\<close> of the
  host, which has no part in this state.
\<close>

definition disconnect :: "registry controller \<Rightarrow> registry controller" where
  "disconnect this = undelegateAll this"

subsection \<open>The object mixin\<close>

text \<open>
  Here \<^verbatim>\<open>delegatedEvents\<close> is optional: \<^verbatim>\<open>delegate\<close> creates the map when it is
  missing, \<^verbatim>\<open>undelegate\<close> and \<^verbatim>\<open>undelegateAll\<close> return at once when it is missing.
\<close>

definition mixin_init :: "nat \<Rightarrow> node \<Rightarrow> registry option controller" where
  "mixin_init c root =
     \<lparr>cid = c, element = root, delegatedEvents = None, element_listeners = [], next_lid = 0\<rparr>"

definition delegate_mixin ::
  "string \<Rightarrow> string \<Rightarrow> handler \<Rightarrow> registry option controller \<Rightarrow> registry option controller" where
  "delegate_mixin eventType selector handler this =
     (let m = (case delegatedEvents this of None \<Rightarrow> [] | Some m \<Rightarrow> m);
          key = key_of eventType selector;
          ls = (case map_of m key of
                  Some existingHandler \<Rightarrow>
                    removeEventListener eventType existingHandler (element_listeners this)
                | None \<Rightarrow> element_listeners this);
          dh = new_closure this eventType selector handler
      in this\<lparr>delegatedEvents := Some (AList.update key dh m),
              element_listeners := addEventListener eventType dh ls,
              next_lid := Suc (next_lid this)\<rparr>)"

definition undelegate_mixin ::
  "string \<Rightarrow> string \<Rightarrow> registry option controller \<Rightarrow> registry option controller" where
  "undelegate_mixin eventType selector this =
     (case delegatedEvents this of
        None \<Rightarrow> this
      | Some m \<Rightarrow>
          (let key = key_of eventType selector
           in case map_of m key of
                Some handler \<Rightarrow>
                  this\<lparr>element_listeners :=
                          removeEventListener eventType handler (element_listeners this),
                       delegatedEvents := Some (AList.delete key m)\<rparr>
              | None \<Rightarrow> this))"

definition undelegateAll_mixin :: "registry option controller \<Rightarrow> registry option controller" where
  "undelegateAll_mixin this =
     (case delegatedEvents this of
        None \<Rightarrow> this
      | Some m \<Rightarrow>
          this\<lparr>element_listeners := removeAll_listeners m (element_listeners this),
               delegatedEvents := Some []\<rparr>)"

subsection \<open>Sequences of operations\<close>

datatype op = Delegate string string handler | Undelegate string string | UndelegateAll

fun apply_op :: "op \<Rightarrow> registry controller \<Rightarrow> registry controller" where
  "apply_op (Delegate e s h) this = delegate e s h this"
| "apply_op (Undelegate e s) this = undelegate e s this"
| "apply_op UndelegateAll this = undelegateAll this"

fun apply_op_mixin :: "op \<Rightarrow> registry option controller \<Rightarrow> registry option controller" where
  "apply_op_mixin (Delegate e s h) this = delegate_mixin e s h this"
| "apply_op_mixin (Undelegate e s) this = undelegate_mixin e s this"
| "apply_op_mixin UndelegateAll this = undelegateAll_mixin this"

definition exec :: "op list \<Rightarrow> registry controller \<Rightarrow> registry controller" where
  "exec ops this = fold apply_op ops this"

definition exec_mixin ::
  "op list \<Rightarrow> registry option controller \<Rightarrow> registry option controller" where
  "exec_mixin ops this = fold apply_op_mixin ops this"

subsection \<open>Delivery of an event to the root\<close>

text \<open>
  When an event reaches the root, the platform runs the listeners attached for the type of
  the event, in attachment order; an exception thrown by one listener is reported and the
  next listener still runs. The result pairs every listener that ran with what it did.
  Whether an event reaches the root is decided by the platform (bubbling) and is not
  part of the model: the listeners below are run on any event handed to them.
\<close>

definition dispatchEvent ::
  "selector_engine \<Rightarrow> registry controller \<Rightarrow> event \<Rightarrow> (listener \<times> (js_error + call list)) list"
  where
  "dispatchEvent css this event =
     map (\<lambda>(t, l). (l, delegatedHandler css (element this) l event))
         (filter (\<lambda>(t, l). t = ev_type event) (element_listeners this))"

definition dispatchEvent_mixin ::
  "selector_engine \<Rightarrow> registry option controller \<Rightarrow> event
     \<Rightarrow> (listener \<times> (js_error + call list)) list"
  where
  "dispatchEvent_mixin css this event =
     map (\<lambda>(t, l). (l, delegatedHandler_mixin css (element this) l event))
         (filter (\<lambda>(t, l). t = ev_type event) (element_listeners this))"

text \<open>What one listener did during a delivery, and all calls of logical handlers.\<close>

definition runs_of :: "listener \<Rightarrow> (listener \<times> (js_error + call list)) list \<Rightarrow> (js_error + call list) list"
  where
  "runs_of l rs = map snd (filter (\<lambda>(l', r). l' = l) rs)"

definition calls_of :: "(listener \<times> (js_error + call list)) list \<Rightarrow> call list" where
  "calls_of rs = concat (map (\<lambda>(l, r). case r of Inl e \<Rightarrow> [] | Inr cs \<Rightarrow> cs) rs)"

section \<open>A concrete document and selector engine\<close>

text \<open>
  The fixture of the unit tests: the root \<^verbatim>\<open>div\<close> of the controller inside the body, a
  button of class \<^verbatim>\<open>btn\<close> with its text, a nested \<^verbatim>\<open>div\<close> with a \<^verbatim>\<open>span\<close>, an \<^verbatim>\<open>input\<close>,
  and a second button of class \<^verbatim>\<open>btn\<close> that lies outside the root. The engine
  understands a class selector \<^verbatim>\<open>.name\<close> and a tag selector \<^verbatim>\<open>name\<close>, and rejects the empty
  string. Both serve the concrete instances of the theorems below.
\<close>

definition class_engine :: selector_engine where
  "class_engine selector =
     (case selector of
        [] \<Rightarrow> None
      | c # cs \<Rightarrow>
          if c = CHR ''.'' then Some (\<lambda>scope a. cs \<in> set (classList a))
          else Some (\<lambda>scope a. tagName a = selector))"

definition doc_body :: node where
  "doc_body = Node 0 ELEMENT_NODE ''body'' [] None"

definition root_div :: node where
  "root_div = Node 1 ELEMENT_NODE ''div'' [] (Some doc_body)"

definition save_btn :: node where
  "save_btn = Node 2 ELEMENT_NODE ''button'' [''btn''] (Some root_div)"

definition save_text :: node where
  "save_text = Node 3 TEXT_NODE [] [] (Some save_btn)"

definition external_btn :: node where
  "external_btn = Node 4 ELEMENT_NODE ''button'' [''btn''] (Some doc_body)"

definition nested_div :: node where
  "nested_div = Node 5 ELEMENT_NODE ''div'' [''nested''] (Some root_div)"

definition nested_span :: node where
  "nested_span = Node 6 ELEMENT_NODE ''span'' [''clickable''] (Some nested_div)"

definition text_input :: node where
  "text_input = Node 7 ELEMENT_NODE ''input'' [] (Some root_div)"

definition detached_text :: node where
  "detached_text = Node 8 TEXT_NODE [] [] None"

definition link_el :: node where
  "link_el = Node 9 ELEMENT_NODE ''link'' [] (Some root_div)"

definition click_on :: "node option \<Rightarrow> event" where
  "click_on t = \<lparr>ev_id = 0, ev_type = ''click'', target = t\<rparr>"

definition btn_listener :: listener where
  "btn_listener =
     \<lparr>lid = 0, l_eventType = ''click'', l_selector = ''.btn'', l_handler = 7, l_this = 1\<rparr>"

section \<open>Predicates on the state\<close>

text \<open>
  A physical listener is attached when the listener list of the root holds it under some
  event type; it is registered when the map holds it under some key.
\<close>

definition attached :: "'m controller \<Rightarrow> listener \<Rightarrow> bool" where
  "attached this l \<longleftrightarrow> l \<in> snd ` set (element_listeners this)"

definition registered :: "registry controller \<Rightarrow> listener \<Rightarrow> bool" where
  "registered this l \<longleftrightarrow> l \<in> snd ` set (delegatedEvents this)"

text \<open>
  The event types under which listeners are attached, and the (event type, selector) pairs
  of the attached closures, one entry for every attached listener.
\<close>

definition attached_types :: "'m controller \<Rightarrow> string list" where
  "attached_types this = map fst (element_listeners this)"

definition attached_pairs :: "'m controller \<Rightarrow> (string \<times> string) list" where
  "attached_pairs this = map (\<lambda>(t, l). (t, l_selector l)) (element_listeners this)"

text \<open>
  The calls of \<^verbatim>\<open>removeEventListener\<close> that the loop of \<^verbatim>\<open>undelegateAll\<close> makes for a map: one
  for every entry, with the event type decoded from the key and the stored closure.
\<close>

definition teardown_requests :: "registry \<Rightarrow> (string \<times> listener) list" where
  "teardown_requests m = map (\<lambda>(key, handler). (key_eventType key, handler)) m"

text \<open>The map of a mixin controller, read as empty while the field is missing.\<close>

definition mixin_registry :: "registry option \<Rightarrow> registry" where
  "mixin_registry d = (case d of None \<Rightarrow> [] | Some m \<Rightarrow> m)"

definition mixin_abs :: "registry option controller \<Rightarrow> registry controller" where
  "mixin_abs this =
     \<lparr>cid = cid this, element = element this,
      delegatedEvents = mixin_registry (delegatedEvents this),
      element_listeners = element_listeners this, next_lid = next_lid this\<rparr>"

text \<open>Event types without a colon, and operations that name only such event types.\<close>

definition colon_free :: "string \<Rightarrow> bool" where
  "colon_free e \<longleftrightarrow> CHR '':'' \<notin> set e"

fun op_colon_free :: "op \<Rightarrow> bool" where
  "op_colon_free (Delegate e s h) = colon_free e"
| "op_colon_free (Undelegate e s) = colon_free e"
| "op_colon_free UndelegateAll = True"

text \<open>
  What every sequence of operations maintains: the keys of the map are distinct; every
  closure is attached at most once, under the event type of the \<^verbatim>\<open>delegate\<close> call that
  created it, and is bound to this controller; every entry of the map sits under the key
  of the call that created its closure, and its closure is attached.
\<close>

definition registry_inv :: "registry controller \<Rightarrow> bool" where
  "registry_inv this \<longleftrightarrow>
     distinct (map fst (delegatedEvents this))
     \<and> distinct (map (\<lambda>(t, l). lid l) (element_listeners this))
     \<and> (\<forall>(t, l) \<in> set (element_listeners this).
           t = l_eventType l \<and> lid l < next_lid this \<and> l_this l = cid this)
     \<and> (\<forall>(k, l) \<in> set (delegatedEvents this).
           k = key_of (l_eventType l) (l_selector l)
           \<and> (l_eventType l, l) \<in> set (element_listeners this))"

text \<open>
  What sequences of colon-free operations maintain in addition: every attached closure
  is the entry of the map under the key of its event type and selector.
\<close>

definition attached_inv :: "registry controller \<Rightarrow> bool" where
  "attached_inv this \<longleftrightarrow>
     (\<forall>(t, l) \<in> set (element_listeners this).
        colon_free t \<and> (key_of t (l_selector l), l) \<in> set (delegatedEvents this))"

lemmas fixture_defs =
  class_engine_def doc_body_def root_div_def save_btn_def save_text_def external_btn_def
  nested_div_def nested_span_def text_input_def detached_text_def link_el_def click_on_def
  btn_listener_def

lemmas eval_defs =
  exec_def exec_mixin_def delegate_def undelegate_def undelegateAll_def useDelegation_def
  delegate_mixin_def undelegate_mixin_def undelegateAll_mixin_def mixin_init_def
  new_closure_def addEventListener_def removeEventListener_def key_of_def key_eventType_def
  dispatchEvent_def dispatchEvent_mixin_def delegatedHandler_def delegatedHandler_mixin_def
  origin_element_def parentElement_def closest_def contains_def runs_of_def calls_of_def
  Let_def

lemma new_closure_sel [simp]:
  "lid (new_closure this e s h) = next_lid this"
  "l_eventType (new_closure this e s h) = e"
  "l_selector (new_closure this e s h) = s"
  "l_handler (new_closure this e s h) = h"
  "l_this (new_closure this e s h) = cid this"
  by (simp_all add: new_closure_def)

section \<open>The key and its decoding\<close>

lemma split_not_Nil: "split sep s \<noteq> []"
  by (induction s) (auto split: list.splits)

lemma split_first: "split sep s = w # ws \<Longrightarrow> w = takeWhile (\<lambda>c. c \<noteq> sep) s"
  by (induction s arbitrary: w ws) (auto simp: split_not_Nil split: list.splits if_splits)

lemma key_eventType_takeWhile: "key_eventType k = takeWhile (\<lambda>c. c \<noteq> CHR '':'') k"
  using split_not_Nil [of "CHR '':''" k] split_first [of "CHR '':''" k]
  by (auto simp: key_eventType_def split: list.splits)

lemma key_eventType_key_of: "CHR '':'' \<notin> set e \<Longrightarrow> key_eventType (key_of e s) = e"
  by (induction e) (auto simp: key_eventType_takeWhile key_of_def)

lemma key_of_eq_iff:
  assumes "CHR '':'' \<notin> set e1" and "CHR '':'' \<notin> set e2"
  shows "key_of e1 s1 = key_of e2 s2 \<longleftrightarrow> e1 = e2 \<and> s1 = s2"
proof
  assume eq: "key_of e1 s1 = key_of e2 s2"
  then have "key_eventType (key_of e1 s1) = key_eventType (key_of e2 s2)"
    by simp
  with assms have "e1 = e2"
    by (simp add: key_eventType_key_of)
  with eq show "e1 = e2 \<and> s1 = s2"
    by (simp add: key_of_def)
qed simp




section \<open>The physical listener\<close>


lemma inclusive_ancestors_self: "n \<in> set (inclusive_ancestors n)"
  by (cases n) simp


text \<open>
  Claim C7: on an event whose target is null the physical listener of either
  implementation returns normally and calls no logical handler; so a delivery of such an
  event to the root, in any state of the controller, raises nothing and calls nothing.
\<close>

theorem null_target_no_call:
  assumes "target ev = None"
  shows "delegatedHandler css root l ev = Inr []
         \<and> delegatedHandler_mixin css root l ev = Inr []
         \<and> snd ` set (dispatchEvent css this ev) \<subseteq> {Inr []}
         \<and> snd ` set (dispatchEvent_mixin css that ev) \<subseteq> {Inr []}
         \<and> calls_of (dispatchEvent css this ev) = []
         \<and> calls_of (dispatchEvent_mixin css that ev) = []"
proof -
  have a: "delegatedHandler css r k ev = Inr []" for r k
    using assms by (simp add: delegatedHandler_def)
  have b: "delegatedHandler_mixin css r k ev = Inr []" for r k
    using assms by (simp add: delegatedHandler_mixin_def)
  have c: "calls_of (map (\<lambda>(t, k). (k, Inr [])) xs) = []" for xs :: "(string \<times> listener) list"
    by (induction xs) (auto simp: calls_of_def)
  show ?thesis
    using c by (auto simp: a b dispatchEvent_def dispatchEvent_mixin_def)
qed

theorem null_target_no_call_witness:
  "target (click_on None) = None
   \<and> dispatchEvent class_engine (delegate ''click'' ''.btn'' 7 (useDelegation 1 root_div))
       (click_on None) = [(btn_listener, Inr [])]
   \<and> dispatchEvent_mixin class_engine (delegate_mixin ''click'' ''.btn'' 7 (mixin_init 1 root_div))
       (click_on None) = [(btn_listener, Inr [])]"
  using null_target_no_call [where ev = "click_on None" and css = class_engine
      and root = root_div and l = btn_listener
      and this = "delegate ''click'' ''.btn'' 7 (useDelegation 1 root_div)"
      and that = "delegate_mixin ''click'' ''.btn'' 7 (mixin_init 1 root_div)"]
  by (simp add: fixture_defs eval_defs)

text \<open>
  Claim C10: on an event whose target is an element the closures of the object mixin and
  of the function-based implementation do the same. Both call the logical handler exactly
  when \<^verbatim>\<open>closest\<close> finds a nearest matching inclusive ancestor that the root contains,
  with the event, that ancestor and the controller as \<^verbatim>\<open>this\<close>; both make no call
  when there is no match or the match is outside the root; both throw what \<^verbatim>\<open>closest\<close>
  throws.
\<close>

theorem delegatedHandler_mixin_eq_on_element:
  assumes "target ev = Some t" and "nodeType t = ELEMENT_NODE"
  shows "delegatedHandler_mixin css root l ev = delegatedHandler css root l ev
         \<and> delegatedHandler css root l ev =
             (case closest css t (l_selector l) of
                Inl e \<Rightarrow> Inl e
              | Inr None \<Rightarrow> Inr []
              | Inr (Some m) \<Rightarrow>
                  if contains root m then Inr [Call (l_handler l) (l_this l) ev m]
                  else Inr [])"
  using assms by (simp add: delegatedHandler_def delegatedHandler_mixin_def origin_element_def)

theorem delegatedHandler_mixin_eq_on_element_witness:
  "target (click_on (Some nested_span)) = Some nested_span
   \<and> nodeType nested_span = ELEMENT_NODE
   \<and> delegatedHandler_mixin class_engine root_div (btn_listener\<lparr>l_selector := ''.nested''\<rparr>)
       (click_on (Some nested_span))
     = Inr [Call 7 1 (click_on (Some nested_span)) nested_div]
   \<and> delegatedHandler class_engine root_div (btn_listener\<lparr>l_selector := ''.nested''\<rparr>)
       (click_on (Some nested_span))
     = Inr [Call 7 1 (click_on (Some nested_span)) nested_div]"
  using delegatedHandler_mixin_eq_on_element [where ev = "click_on (Some nested_span)"
      and t = nested_span and css = class_engine and root = root_div
      and l = "btn_listener\<lparr>l_selector := ''.nested''\<rparr>"]
  by (simp add: fixture_defs eval_defs)

section \<open>What every sequence of operations maintains\<close>

lemma set_addEventListener [simp]:
  "set (addEventListener t l ls) = insert (t, l) (set ls)"
  by (auto simp: addEventListener_def)

lemma distinct_map_remove1: "distinct (map f xs) \<Longrightarrow> distinct (map f (remove1 x xs))"
  by (induction xs) (auto dest: set_remove1_subset [THEN subsetD])

lemma filter_listener_distinct:
  assumes "distinct (map (\<lambda>(t, l). lid l) ls)" and "(e, l) \<in> set ls"
  shows "filter (\<lambda>(t, l'). l' = l) ls = [(e, l)]"
  using assms
proof (induction ls)
  case Nil
  then show ?case by simp
next
  case (Cons x ls)
  obtain t0 l0 where x: "x = (t0, l0)" by (cases x)
  show ?case
  proof (cases "x = (e, l)")
    case True
    have "filter (\<lambda>(t, l'). l' = l) ls = []"
      using Cons.prems(1) True by (fastforce simp: filter_empty_conv)
    with True show ?thesis by simp
  next
    case False
    with Cons.prems have in_ls: "(e, l) \<in> set ls" by simp
    with Cons.prems(1) have "l0 \<noteq> l" by (force simp: x)
    with Cons.IH in_ls Cons.prems(1) show ?thesis by (simp add: x)
  qed
qed

lemma set_removeEventListener:
  "distinct (map f ls) \<Longrightarrow> set (removeEventListener t l ls) = set ls - {(t, l)}"
  by (simp add: removeEventListener_def distinct_map set_remove1_eq)

lemma in_set_updateD:
  "distinct (map fst al) \<Longrightarrow> (k', v') \<in> set (AList.update k v al)
     \<Longrightarrow> (k', v') = (k, v) \<or> (k' \<noteq> k \<and> (k', v') \<in> set al)"
  by (induction al) (force split: if_splits)+

lemma in_set_updateI1: "distinct (map fst al) \<Longrightarrow> (k, v) \<in> set (AList.update k v al)"
  by (induction al) auto

lemma in_set_updateI2: "(k', v') \<in> set al \<Longrightarrow> k' \<noteq> k \<Longrightarrow> (k', v') \<in> set (AList.update k v al)"
  by (induction al) auto

lemma set_delete: "set (AList.delete k al) = {(k', v) \<in> set al. k' \<noteq> k}"
  by (auto simp: AList.delete_eq)

lemma registry_inv_delegate:
  assumes inv: "registry_inv this"
  shows "registry_inv (delegate e s h this)"
proof -
  let ?m = "delegatedEvents this" and ?ls = "element_listeners this"
  let ?key = "key_of e s"
  let ?dh = "new_closure this e s h"
  define ls1 where "ls1 = (case map_of ?m ?key of
                  Some existingHandler \<Rightarrow> removeEventListener e existingHandler ?ls
                | None \<Rightarrow> ?ls)"
  have d: "distinct (map (\<lambda>(t, l). lid l) ?ls)" and dk: "distinct (map fst ?m)"
    and L: "\<And>t l. (t, l) \<in> set ?ls \<Longrightarrow> t = l_eventType l \<and> lid l < next_lid this \<and> l_this l = cid this"
    and M: "\<And>k l. (k, l) \<in> set ?m \<Longrightarrow> k = key_of (l_eventType l) (l_selector l) \<and> (l_eventType l, l) \<in> set ?ls"
    using inv by (auto simp: registry_inv_def)
  have sub: "set ls1 \<subseteq> set ?ls"
    by (auto simp: ls1_def removeEventListener_def split: option.splits
        dest: set_remove1_subset [THEN subsetD])
  have d1: "distinct (map (\<lambda>(t, l). lid l) ls1)"
    using d by (auto simp: ls1_def removeEventListener_def distinct_map_remove1 split: option.splits)
  have fresh: "(e, ?dh) \<notin> set ls1"
    using sub L by fastforce
  have st: "delegate e s h this =
      this\<lparr>delegatedEvents := AList.update ?key ?dh ?m,
           element_listeners := ls1 @ [(e, ?dh)],
           next_lid := Suc (next_lid this)\<rparr>"
    using fresh by (simp add: delegate_def Let_def ls1_def addEventListener_def)
  have keep: "(l_eventType l, l) \<in> set ls1" if "(k, l) \<in> set ?m" "k \<noteq> ?key" for k l
  proof (cases "map_of ?m ?key")
    case None
    then show ?thesis using M that by (simp add: ls1_def)
  next
    case (Some ex)
    then have "(?key, ex) \<in> set ?m" by (rule map_of_SomeD)
    then have "?key = key_of (l_eventType ex) (l_selector ex)" using M by blast
    moreover have "k = key_of (l_eventType l) (l_selector l)" using M that by blast
    ultimately have "l \<noteq> ex" using that by auto
    then show ?thesis
      using Some M [OF that(1)] d by (simp add: ls1_def set_removeEventListener)
  qed
  have 1: "distinct (map fst (AList.update ?key ?dh ?m))"
    using dk by (simp add: AList.distinct_update)
  have 2: "distinct (map (\<lambda>(t, l). lid l) (ls1 @ [(e, ?dh)]))"
    using d1 sub L by fastforce
  have 3: "t = l_eventType l \<and> lid l < Suc (next_lid this) \<and> l_this l = cid this"
    if "(t, l) \<in> set (ls1 @ [(e, ?dh)])" for t l
    using that sub L by fastforce
  have 4: "k = key_of (l_eventType l) (l_selector l) \<and> (l_eventType l, l) \<in> set (ls1 @ [(e, ?dh)])"
    if "(k, l) \<in> set (AList.update ?key ?dh ?m)" for k l
    using in_set_updateD [OF dk that] M keep by auto
  show ?thesis
    unfolding st registry_inv_def using 1 2 3 4 by auto
qed


lemma registry_inv_undelegate:
  assumes inv: "registry_inv this"
  shows "registry_inv (undelegate e s this)"
proof (cases "map_of (delegatedEvents this) (key_of e s)")
  case None
  then show ?thesis using inv by (simp add: undelegate_def)
next
  case (Some ex)
  let ?m = "delegatedEvents this" and ?ls = "element_listeners this"
  let ?key = "key_of e s"
  have d: "distinct (map (\<lambda>(t, l). lid l) ?ls)" and dk: "distinct (map fst ?m)"
    and L: "\<And>t l. (t, l) \<in> set ?ls \<Longrightarrow> t = l_eventType l \<and> lid l < next_lid this \<and> l_this l = cid this"
    and M: "\<And>k l. (k, l) \<in> set ?m \<Longrightarrow> k = key_of (l_eventType l) (l_selector l) \<and> (l_eventType l, l) \<in> set ?ls"
    using inv by (auto simp: registry_inv_def)
  have st: "undelegate e s this =
      this\<lparr>element_listeners := removeEventListener e ex ?ls,
           delegatedEvents := AList.delete ?key ?m\<rparr>"
    using Some by (simp add: undelegate_def)
  have ex: "?key = key_of (l_eventType ex) (l_selector ex)"
    using map_of_SomeD [OF Some] M by blast
  have 1: "distinct (map fst (AList.delete ?key ?m))"
    using dk by (simp add: AList.distinct_delete)
  have 2: "distinct (map (\<lambda>(t, l). lid l) (removeEventListener e ex ?ls))"
    using d by (simp add: removeEventListener_def distinct_map_remove1)
  have 3: "t = l_eventType l \<and> lid l < next_lid this \<and> l_this l = cid this"
    if "(t, l) \<in> set (removeEventListener e ex ?ls)" for t l
    using that L d by (auto simp: set_removeEventListener)
  have 4: "k = key_of (l_eventType l) (l_selector l)
           \<and> (l_eventType l, l) \<in> set (removeEventListener e ex ?ls)"
    if "(k, l) \<in> set (AList.delete ?key ?m)" for k l
  proof -
    from that have in_m: "(k, l) \<in> set ?m" and ne: "k \<noteq> ?key"
      by (auto simp: set_delete)
    with M ex have "l \<noteq> ex" by auto
    with M [OF in_m] d show ?thesis by (simp add: set_removeEventListener)
  qed
  show ?thesis
    unfolding st registry_inv_def using 1 2 3 4 by auto
qed

lemma set_removeAll_listeners:
  "distinct (map f ls) \<Longrightarrow>
     set (removeAll_listeners m ls) = set ls - (\<lambda>(k, l). (key_eventType k, l)) ` set m"
proof (induction m arbitrary: ls)
  case Nil
  then show ?case by simp
next
  case (Cons a m)
  obtain k l where a: "a = (k, l)" by (cases a)
  have "distinct (map f (removeEventListener (key_eventType k) l ls))"
    using Cons.prems by (simp add: removeEventListener_def distinct_map_remove1)
  from Cons.IH [OF this] Cons.prems show ?case
    by (auto simp: a set_removeEventListener)
qed

lemma distinct_removeAll_listeners:
  "distinct (map f ls) \<Longrightarrow> distinct (map f (removeAll_listeners m ls))"
  by (induction m arbitrary: ls) (auto simp: removeEventListener_def distinct_map_remove1)

lemma registry_inv_undelegateAll:
  assumes inv: "registry_inv this"
  shows "registry_inv (undelegateAll this)"
  using inv
  by (auto simp: registry_inv_def undelegateAll_def distinct_removeAll_listeners
      set_removeAll_listeners)

lemma registry_inv_init: "registry_inv (useDelegation c root)"
  by (simp add: registry_inv_def useDelegation_def)

lemma registry_inv_apply_op: "registry_inv this \<Longrightarrow> registry_inv (apply_op op this)"
  by (cases op) (simp_all add: registry_inv_delegate registry_inv_undelegate registry_inv_undelegateAll)

lemma registry_inv_exec: "registry_inv this \<Longrightarrow> registry_inv (exec ops this)"
  unfolding exec_def by (induction ops arbitrary: this) (simp_all add: registry_inv_apply_op)

lemma registry_inv_reachable: "registry_inv (exec ops (useDelegation c root))"
  by (simp add: registry_inv_exec registry_inv_init)

section \<open>What sequences of colon-free operations maintain\<close>

lemma delegatedEvents_delegate:
  "delegatedEvents (delegate e s h this) =
     AList.update (key_of e s)
       (new_closure this e s h) (delegatedEvents this)"
  by (simp add: delegate_def Let_def)

lemma element_listeners_delegate:
  assumes "registry_inv this"
  shows "element_listeners (delegate e s h this) =
     (case map_of (delegatedEvents this) (key_of e s) of
        Some ex \<Rightarrow> removeEventListener e ex (element_listeners this)
      | None \<Rightarrow> element_listeners this)
     @ [(e, new_closure this e s h)]"
proof -
  let ?dh = "new_closure this e s h"
  have "\<And>t l. (t, l) \<in> set (element_listeners this) \<Longrightarrow> lid l < next_lid this"
    using assms by (auto simp: registry_inv_def)
  then have "(e, ?dh) \<notin> set (element_listeners this)"
    by fastforce
  then have "(e, ?dh) \<notin> set (removeEventListener e' ex (element_listeners this))" for e' ex
    by (auto simp: removeEventListener_def dest: set_remove1_subset [THEN subsetD])
  then show ?thesis
    using \<open>(e, ?dh) \<notin> set (element_listeners this)\<close>
    by (simp add: delegate_def Let_def addEventListener_def split: option.splits)
qed

lemma attached_inv_delegate:
  assumes inv: "registry_inv this" and att: "attached_inv this" and cf: "colon_free e"
  shows "attached_inv (delegate e s h this)"
proof -
  let ?m = "delegatedEvents this" and ?ls = "element_listeners this"
  let ?key = "key_of e s"
  let ?dh = "new_closure this e s h"
  have d: "distinct (map (\<lambda>(t, l). lid l) ?ls)" and dk: "distinct (map fst ?m)"
    using inv by (auto simp: registry_inv_def)
  have A: "\<And>t l. (t, l) \<in> set ?ls \<Longrightarrow> colon_free t \<and> (key_of t (l_selector l), l) \<in> set ?m"
    using att by (auto simp: attached_inv_def)
  have new: "(?key, ?dh) \<in> set (AList.update ?key ?dh ?m)"
    using dk by (rule in_set_updateI1)
  have old: "colon_free t \<and> (key_of t (l_selector l), l) \<in> set (AList.update ?key ?dh ?m)"
    if mem: "(t, l) \<in> set (case map_of ?m ?key of
               Some ex \<Rightarrow> removeEventListener e ex ?ls | None \<Rightarrow> ?ls)" for t l
  proof -
    have in_ls: "(t, l) \<in> set ?ls"
      using mem by (auto simp: removeEventListener_def split: option.splits
          dest: set_remove1_subset [THEN subsetD])
    note a = A [OF in_ls]
    have "key_of t (l_selector l) \<noteq> ?key"
    proof
      assume eq: "key_of t (l_selector l) = ?key"
      with a cf have "t = e" by (simp add: key_of_eq_iff colon_free_def)
      from a eq dk have "map_of ?m ?key = Some l" by simp
      with mem d \<open>t = e\<close> show False by (simp add: set_removeEventListener)
    qed
    with a show ?thesis by (simp add: in_set_updateI2)
  qed
  show ?thesis
    unfolding attached_inv_def delegatedEvents_delegate element_listeners_delegate [OF inv]
    using new old cf by auto
qed

lemma attached_inv_undelegate:
  assumes inv: "registry_inv this" and att: "attached_inv this" and cf: "colon_free e"
  shows "attached_inv (undelegate e s this)"
proof (cases "map_of (delegatedEvents this) (key_of e s)")
  case None
  then show ?thesis using att by (simp add: undelegate_def)
next
  case (Some ex)
  let ?m = "delegatedEvents this" and ?ls = "element_listeners this"
  let ?key = "key_of e s"
  have d: "distinct (map (\<lambda>(t, l). lid l) ?ls)" and dk: "distinct (map fst ?m)"
    using inv by (auto simp: registry_inv_def)
  have A: "\<And>t l. (t, l) \<in> set ?ls \<Longrightarrow> colon_free t \<and> (key_of t (l_selector l), l) \<in> set ?m"
    using att by (auto simp: attached_inv_def)
  have st: "undelegate e s this =
      this\<lparr>element_listeners := removeEventListener e ex ?ls,
           delegatedEvents := AList.delete ?key ?m\<rparr>"
    using Some by (simp add: undelegate_def)
  have "colon_free t \<and> (key_of t (l_selector l), l) \<in> set (AList.delete ?key ?m)"
    if mem: "(t, l) \<in> set (removeEventListener e ex ?ls)" for t l
  proof -
    from mem d have in_ls: "(t, l) \<in> set ?ls" and ne: "(t, l) \<noteq> (e, ex)"
      by (simp_all add: set_removeEventListener)
    note a = A [OF in_ls]
    have "key_of t (l_selector l) \<noteq> ?key"
    proof
      assume eq: "key_of t (l_selector l) = ?key"
      with a cf have "t = e" by (simp add: key_of_eq_iff colon_free_def)
      from a eq dk have "map_of ?m ?key = Some l" by simp
      with Some ne \<open>t = e\<close> show False by simp
    qed
    with a show ?thesis by (simp add: set_delete)
  qed
  then show ?thesis
    unfolding st attached_inv_def by auto
qed

lemma element_listeners_undelegateAll:
  assumes inv: "registry_inv this" and att: "attached_inv this"
  shows "element_listeners (undelegateAll this) = []"
proof -
  have d: "distinct (map (\<lambda>(t, l). lid l) (element_listeners this))"
    using inv by (auto simp: registry_inv_def)
  have "(t, l) \<in> (\<lambda>(k, l). (key_eventType k, l)) ` set (delegatedEvents this)"
    if "(t, l) \<in> set (element_listeners this)" for t l
  proof -
    from att that have "colon_free t" and "(key_of t (l_selector l), l) \<in> set (delegatedEvents this)"
      by (auto simp: attached_inv_def)
    then show ?thesis
      by (force simp: colon_free_def key_eventType_key_of)
  qed
  then have "set (removeAll_listeners (delegatedEvents this) (element_listeners this)) = {}"
    using set_removeAll_listeners [OF d] by auto
  then show ?thesis by (simp add: undelegateAll_def)
qed

lemma attached_inv_undelegateAll:
  "registry_inv this \<Longrightarrow> attached_inv this \<Longrightarrow> attached_inv (undelegateAll this)"
  using element_listeners_undelegateAll [of this]
  by (simp add: attached_inv_def)

lemma attached_inv_apply_op:
  "registry_inv this \<Longrightarrow> attached_inv this \<Longrightarrow> op_colon_free op \<Longrightarrow> attached_inv (apply_op op this)"
  by (cases op) (simp_all add: attached_inv_delegate attached_inv_undelegate attached_inv_undelegateAll)

lemma attached_inv_exec:
  "registry_inv this \<Longrightarrow> attached_inv this \<Longrightarrow> list_all op_colon_free ops
     \<Longrightarrow> attached_inv (exec ops this)"
  unfolding exec_def
  by (induction ops arbitrary: this) (simp_all add: attached_inv_apply_op registry_inv_apply_op)

lemma attached_inv_reachable:
  "list_all op_colon_free ops \<Longrightarrow> attached_inv (exec ops (useDelegation c root))"
  using registry_inv_init [of c root]
  by (intro attached_inv_exec) (simp_all add: attached_inv_def useDelegation_def)

section \<open>The object mixin performs the same operations\<close>

lemma mixin_abs_init: "mixin_abs (mixin_init c root) = useDelegation c root"
  by (simp add: mixin_abs_def mixin_init_def useDelegation_def mixin_registry_def)

lemma mixin_abs_delegate: "mixin_abs (delegate_mixin e s h this) = delegate e s h (mixin_abs this)"
  by (simp add: mixin_abs_def delegate_mixin_def delegate_def mixin_registry_def Let_def
      new_closure_def split: option.splits)

lemma mixin_abs_undelegate: "mixin_abs (undelegate_mixin e s this) = undelegate e s (mixin_abs this)"
  by (simp add: mixin_abs_def undelegate_mixin_def undelegate_def mixin_registry_def Let_def
      split: option.splits)

lemma mixin_abs_undelegateAll: "mixin_abs (undelegateAll_mixin this) = undelegateAll (mixin_abs this)"
  by (simp add: mixin_abs_def undelegateAll_mixin_def undelegateAll_def mixin_registry_def
      split: option.splits)

lemma mixin_abs_apply_op: "mixin_abs (apply_op_mixin op this) = apply_op op (mixin_abs this)"
  by (cases op) (simp_all add: mixin_abs_delegate mixin_abs_undelegate mixin_abs_undelegateAll)

lemma mixin_abs_exec: "mixin_abs (exec_mixin ops this) = exec ops (mixin_abs this)"
  unfolding exec_def exec_mixin_def
  by (induction ops arbitrary: this) (simp_all add: mixin_abs_apply_op)

lemma mixin_abs_reachable:
  "mixin_abs (exec_mixin ops (mixin_init c root)) = exec ops (useDelegation c root)"
  by (simp add: mixin_abs_exec mixin_abs_init)

lemma element_listeners_mixin_abs [simp]: "element_listeners (mixin_abs this) = element_listeners this"
  by (simp add: mixin_abs_def)

lemma attached_mixin_abs [simp]: "attached (mixin_abs this) l = attached this l"
  by (simp add: attached_def)

section \<open>Attached listeners and the registry\<close>

text \<open>
  Claim C2 at a concrete input: after \<^verbatim>\<open>delegate('custom:event', '.btn', h)\<close> and
  \<^verbatim>\<open>undelegateAll()\<close> the map is empty, but the closure is still attached to the root:
  \<^verbatim>\<open>undelegateAll\<close> asked the root to remove it under the event type \<^verbatim>\<open>custom\<close>, the
  part of the key before the first colon. A listener is attached whose Registration is
  not in the map, in both implementations, and an event of type \<^verbatim>\<open>custom:event\<close> on the
  button still calls the handler.
\<close>

theorem undelegateAll_leaves_colon_listener:
  "delegatedEvents
     (exec [Delegate ''custom:event'' ''.btn'' 7, UndelegateAll] (useDelegation 1 root_div)) = []
   \<and> element_listeners
       (exec [Delegate ''custom:event'' ''.btn'' 7, UndelegateAll] (useDelegation 1 root_div))
     = [(''custom:event'',
         \<lparr>lid = 0, l_eventType = ''custom:event'', l_selector = ''.btn'', l_handler = 7,
            l_this = 1\<rparr>)]
   \<and> attached
       (exec [Delegate ''custom:event'' ''.btn'' 7, UndelegateAll] (useDelegation 1 root_div))
       \<lparr>lid = 0, l_eventType = ''custom:event'', l_selector = ''.btn'', l_handler = 7, l_this = 1\<rparr>
   \<and> \<not> registered
       (exec [Delegate ''custom:event'' ''.btn'' 7, UndelegateAll] (useDelegation 1 root_div))
       \<lparr>lid = 0, l_eventType = ''custom:event'', l_selector = ''.btn'', l_handler = 7, l_this = 1\<rparr>
   \<and> delegatedEvents
       (exec_mixin [Delegate ''custom:event'' ''.btn'' 7, UndelegateAll] (mixin_init 1 root_div))
     = Some []
   \<and> element_listeners
       (exec_mixin [Delegate ''custom:event'' ''.btn'' 7, UndelegateAll] (mixin_init 1 root_div))
     = [(''custom:event'',
         \<lparr>lid = 0, l_eventType = ''custom:event'', l_selector = ''.btn'', l_handler = 7,
            l_this = 1\<rparr>)]
   \<and> calls_of (dispatchEvent class_engine
        (exec [Delegate ''custom:event'' ''.btn'' 7, UndelegateAll] (useDelegation 1 root_div))
        \<lparr>ev_id = 0, ev_type = ''custom:event'', target = Some save_btn\<rparr>)
     = [Call 7 1 \<lparr>ev_id = 0, ev_type = ''custom:event'', target = Some save_btn\<rparr> save_btn]"
  by (simp add: fixture_defs eval_defs attached_def registered_def)

text \<open>
  One direction of the invariant holds after every sequence of operations: the closure
  of every Registration in the map is attached, under the event type it was created
  for, and the map has one entry per key. \<^verbatim>\<open>undelegateAll\<close> always empties the map.
\<close>

lemma registered_imp_attached:
  assumes "(k, l) \<in> set (delegatedEvents (exec ops (useDelegation c root)))"
  shows "k = key_of (l_eventType l) (l_selector l)"
    and "(l_eventType l, l) \<in> set (element_listeners (exec ops (useDelegation c root)))"
    and "attached (exec ops (useDelegation c root)) l"
proof -
  have inv: "registry_inv (exec ops (useDelegation c root))" by (rule registry_inv_reachable)
  with assms show "k = key_of (l_eventType l) (l_selector l)"
    and a: "(l_eventType l, l) \<in> set (element_listeners (exec ops (useDelegation c root)))"
    by (auto simp: registry_inv_def)
  then show "attached (exec ops (useDelegation c root)) l"
    by (force simp: attached_def)
qed

lemma one_registration_per_key:
  "distinct (map fst (delegatedEvents (exec ops (useDelegation c root))))"
  "distinct (map fst (mixin_registry (delegatedEvents (exec_mixin ops (mixin_init c root)))))"
proof -
  show a: "distinct (map fst (delegatedEvents (exec ops (useDelegation c root))))"
    using registry_inv_reachable [of ops c root] by (simp add: registry_inv_def)
  have "delegatedEvents (mixin_abs (exec_mixin ops (mixin_init c root)))
      = mixin_registry (delegatedEvents (exec_mixin ops (mixin_init c root)))"
    by (simp add: mixin_abs_def)
  with a show "distinct (map fst (mixin_registry (delegatedEvents (exec_mixin ops (mixin_init c root)))))"
    by (simp add: mixin_abs_reachable)
qed

lemma delegatedEvents_undelegateAll [simp]: "delegatedEvents (undelegateAll this) = []"
  by (simp add: undelegateAll_def)

text \<open>
  When no event type of the sequence contains a colon, the other direction holds as well,
  and \<^verbatim>\<open>undelegateAll\<close> leaves no listener attached.
\<close>

lemma attached_iff_registered_colon_free:
  assumes "list_all op_colon_free ops"
  shows "(\<forall>l. attached (exec ops (useDelegation c root)) l
               \<longleftrightarrow> registered (exec ops (useDelegation c root)) l)
         \<and> (\<forall>l. attached (exec_mixin ops (mixin_init c root)) l
               \<longleftrightarrow> registered (mixin_abs (exec_mixin ops (mixin_init c root))) l)
         \<and> element_listeners (undelegateAll (exec ops (useDelegation c root))) = []
         \<and> delegatedEvents (undelegateAll (exec ops (useDelegation c root))) = []
         \<and> element_listeners (undelegateAll_mixin (exec_mixin ops (mixin_init c root))) = []"
proof -
  let ?st = "exec ops (useDelegation c root)"
  have inv: "registry_inv ?st" by (rule registry_inv_reachable)
  have att: "attached_inv ?st" using assms by (rule attached_inv_reachable)
  have "attached ?st l \<longleftrightarrow> registered ?st l" for l
  proof
    assume "attached ?st l"
    then obtain t where "(t, l) \<in> set (element_listeners ?st)"
      by (auto simp: attached_def)
    with att have "(key_of t (l_selector l), l) \<in> set (delegatedEvents ?st)"
      by (auto simp: attached_inv_def)
    then show "registered ?st l"
      by (force simp: registered_def)
  next
    assume "registered ?st l"
    then obtain k where "(k, l) \<in> set (delegatedEvents ?st)"
      by (auto simp: registered_def)
    with inv have "(l_eventType l, l) \<in> set (element_listeners ?st)"
      by (auto simp: registry_inv_def)
    then show "attached ?st l"
      by (force simp: attached_def)
  qed
  moreover have "element_listeners (undelegateAll ?st) = []"
    using inv att by (rule element_listeners_undelegateAll)
  moreover have "delegatedEvents (undelegateAll ?st) = []"
    by (simp add: undelegateAll_def)
  moreover have "element_listeners (undelegateAll_mixin (exec_mixin ops (mixin_init c root)))
      = element_listeners (undelegateAll ?st)"
    using element_listeners_mixin_abs
      [of "undelegateAll_mixin (exec_mixin ops (mixin_init c root))"]
    by (simp only: mixin_abs_undelegateAll mixin_abs_reachable)
  moreover have "attached (exec_mixin ops (mixin_init c root)) l
      \<longleftrightarrow> registered (mixin_abs (exec_mixin ops (mixin_init c root))) l" for l
    using calculation(1) attached_mixin_abs [of "exec_mixin ops (mixin_init c root)" l]
    by (simp only: mixin_abs_reachable)
  ultimately show ?thesis by simp
qed

lemma attached_iff_registered_colon_free_instance:
  "list_all op_colon_free
     [Delegate ''click'' ''.btn'' 1, Delegate ''mouseover'' ''.btn'' 2, Undelegate ''click'' ''.btn'']
   \<and> attached
        (exec [Delegate ''click'' ''.btn'' 1, Delegate ''mouseover'' ''.btn'' 2,
               Undelegate ''click'' ''.btn''] (useDelegation 1 root_div))
        \<lparr>lid = 1, l_eventType = ''mouseover'', l_selector = ''.btn'', l_handler = 2, l_this = 1\<rparr>
   \<and> registered
        (exec [Delegate ''click'' ''.btn'' 1, Delegate ''mouseover'' ''.btn'' 2,
               Undelegate ''click'' ''.btn''] (useDelegation 1 root_div))
        \<lparr>lid = 1, l_eventType = ''mouseover'', l_selector = ''.btn'', l_handler = 2, l_this = 1\<rparr>
   \<and> element_listeners
        (undelegateAll
           (exec [Delegate ''click'' ''.btn'' 1, Delegate ''mouseover'' ''.btn'' 2,
                  Undelegate ''click'' ''.btn''] (useDelegation 1 root_div))) = []"
  using attached_iff_registered_colon_free
    [where ops = "[Delegate ''click'' ''.btn'' 1, Delegate ''mouseover'' ''.btn'' 2,
                   Undelegate ''click'' ''.btn'']"
       and c = 1 and root = root_div]
  by (simp add: colon_free_def eval_defs attached_def registered_def)

text \<open>
  Claim C8, as stated: at most one physical listener is attached per event type, however
  many selectors are registered for it. It fails: two selectors registered for
  \<^verbatim>\<open>click\<close> give two listeners attached for \<^verbatim>\<open>click\<close>.
\<close>

theorem two_listeners_one_event_type:
  "\<not> distinct (attached_types (exec [Delegate ''click'' ''.btn'' 1, Delegate ''click'' ''.card'' 2]
       (useDelegation 1 root_div)))"
  by (simp add: eval_defs attached_types_def)

lemma mixin_attached_pairs: "attached_pairs (mixin_abs this) = attached_pairs this"
  by (simp add: attached_pairs_def)

lemma registered_pair_colon_free:
  assumes inv: "registry_inv this" and att: "attached_inv this" and cf: "colon_free e"
    and m: "map_of (delegatedEvents this) (key_of e s) = Some l"
  shows "l_eventType l = e" and "l_selector l = s" and "(e, l) \<in> set (element_listeners this)"
proof -
  have in_m: "(key_of e s, l) \<in> set (delegatedEvents this)"
    using m by (rule map_of_SomeD)
  with inv have k: "key_of e s = key_of (l_eventType l) (l_selector l)"
    and a: "(l_eventType l, l) \<in> set (element_listeners this)"
    by (auto simp: registry_inv_def)
  from att a have "colon_free (l_eventType l)"
    by (auto simp: attached_inv_def)
  with cf k show "l_eventType l = e" and "l_selector l = s"
    by (simp_all add: key_of_eq_iff colon_free_def)
  with a show "(e, l) \<in> set (element_listeners this)" by simp
qed

text \<open>
  Claim C8, amended: after every sequence of operations whose event types contain no
  colon, at most one physical listener is attached per (event type, selector) pair: the
  pairs of the attached closures are pairwise different, in both implementations.
  Different selectors registered for one event type each have a listener of their own:
  the Registration of a pair is the one closure attached for that pair, and the closures
  of two selectors of the same event type are different and both attached.
\<close>

theorem one_listener_per_pair_colon_free:
  assumes "list_all op_colon_free ops"
  shows "distinct (attached_pairs (exec ops (useDelegation c root)))
       \<and> distinct (attached_pairs (exec_mixin ops (mixin_init c root)))
       \<and> (\<forall>e s l. colon_free e
             \<longrightarrow> map_of (delegatedEvents (exec ops (useDelegation c root))) (key_of e s) = Some l
             \<longrightarrow> l_selector l = s
                 \<and> filter (\<lambda>(t, l'). t = e \<and> l_selector l' = s)
                      (element_listeners (exec ops (useDelegation c root))) = [(e, l)])
       \<and> (\<forall>e s1 s2 l1 l2. colon_free e \<longrightarrow> s1 \<noteq> s2
             \<longrightarrow> map_of (delegatedEvents (exec ops (useDelegation c root))) (key_of e s1) = Some l1
             \<longrightarrow> map_of (delegatedEvents (exec ops (useDelegation c root))) (key_of e s2) = Some l2
             \<longrightarrow> l1 \<noteq> l2
                 \<and> (e, l1) \<in> set (element_listeners (exec ops (useDelegation c root)))
                 \<and> (e, l2) \<in> set (element_listeners (exec ops (useDelegation c root)))
                 \<and> (e, l1) \<in> set (element_listeners (exec_mixin ops (mixin_init c root)))
                 \<and> (e, l2) \<in> set (element_listeners (exec_mixin ops (mixin_init c root))))"
proof -
  let ?st = "exec ops (useDelegation c root)"
  let ?M = "exec_mixin ops (mixin_init c root)"
  have inv: "registry_inv ?st" by (rule registry_inv_reachable)
  have att: "attached_inv ?st" using assms by (rule attached_inv_reachable)
  have dk: "distinct (map fst (delegatedEvents ?st))"
    and d: "distinct (map (\<lambda>(t, l). lid l) (element_listeners ?st))"
    using inv by (auto simp: registry_inv_def)
  have same: "l = l'"
    if "(t, l) \<in> set (element_listeners ?st)" and "(t, l') \<in> set (element_listeners ?st)"
      and "l_selector l = l_selector l'" for t l l'
  proof -
    from that att have "(key_of t (l_selector l), l) \<in> set (delegatedEvents ?st)"
      and "(key_of t (l_selector l), l') \<in> set (delegatedEvents ?st)"
      by (auto simp: attached_inv_def)
    with dk show ?thesis by (rule eq_key_imp_eq_value)
  qed
  have "inj_on (\<lambda>(t, l). (t, l_selector l)) (set (element_listeners ?st))"
    by (rule inj_onI) (auto dest: same)
  with d have 1: "distinct (attached_pairs ?st)"
    by (simp add: attached_pairs_def distinct_map)
  have lsM: "element_listeners ?M = element_listeners ?st"
    using element_listeners_mixin_abs [of ?M] by (simp only: mixin_abs_reachable)
  then have 2: "distinct (attached_pairs ?M)"
    using 1 by (simp add: attached_pairs_def)
  have 3: "l_selector l = s
      \<and> filter (\<lambda>(t, l'). t = e \<and> l_selector l' = s) (element_listeners ?st) = [(e, l)]"
    if cf: "colon_free e" and m: "map_of (delegatedEvents ?st) (key_of e s) = Some l" for e s l
  proof -
    note r = registered_pair_colon_free [OF inv att cf m]
    have "filter (\<lambda>(t, l'). t = e \<and> l_selector l' = s) (element_listeners ?st)
        = filter (\<lambda>(t, l'). l' = l) (element_listeners ?st)"
    proof (rule filter_cong [OF refl], clarify)
      fix t l'
      assume "(t, l') \<in> set (element_listeners ?st)"
      then show "(t = e \<and> l_selector l' = s) = (l' = l)"
        using same [of t l' l] r inv by (auto simp: registry_inv_def)
    qed
    also have "\<dots> = [(e, l)]"
      using d r(3) by (rule filter_listener_distinct)
    finally show ?thesis using r(2) by simp
  qed
  have 4: "l1 \<noteq> l2 \<and> (e, l1) \<in> set (element_listeners ?st) \<and> (e, l2) \<in> set (element_listeners ?st)
      \<and> (e, l1) \<in> set (element_listeners ?M) \<and> (e, l2) \<in> set (element_listeners ?M)"
    if cf: "colon_free e" and ne: "s1 \<noteq> s2"
      and m1: "map_of (delegatedEvents ?st) (key_of e s1) = Some l1"
      and m2: "map_of (delegatedEvents ?st) (key_of e s2) = Some l2" for e s1 s2 l1 l2
    using registered_pair_colon_free [OF inv att cf m1]
      registered_pair_colon_free [OF inv att cf m2] ne lsM by auto
  from 1 2 3 4 show ?thesis by blast
qed

theorem one_listener_per_pair_colon_free_witness:
  "list_all op_colon_free [Delegate ''click'' ''.btn'' 1, Delegate ''click'' ''.card'' 2,
       Delegate ''click'' ''.btn'' 3]
   \<and> attached_pairs (exec [Delegate ''click'' ''.btn'' 1, Delegate ''click'' ''.card'' 2,
       Delegate ''click'' ''.btn'' 3] (useDelegation 1 root_div))
       = [(''click'', ''.card''), (''click'', ''.btn'')]
   \<and> distinct (attached_pairs (exec [Delegate ''click'' ''.btn'' 1, Delegate ''click'' ''.card'' 2,
       Delegate ''click'' ''.btn'' 3] (useDelegation 1 root_div)))
   \<and> colon_free ''click''
   \<and> map_of (delegatedEvents (exec [Delegate ''click'' ''.btn'' 1, Delegate ''click'' ''.card'' 2,
       Delegate ''click'' ''.btn'' 3] (useDelegation 1 root_div))) (key_of ''click'' ''.btn'')
       = Some \<lparr>lid = 2, l_eventType = ''click'', l_selector = ''.btn'', l_handler = 3, l_this = 1\<rparr>
   \<and> map_of (delegatedEvents (exec [Delegate ''click'' ''.btn'' 1, Delegate ''click'' ''.card'' 2,
       Delegate ''click'' ''.btn'' 3] (useDelegation 1 root_div))) (key_of ''click'' ''.card'')
       = Some \<lparr>lid = 1, l_eventType = ''click'', l_selector = ''.card'', l_handler = 2, l_this = 1\<rparr>
   \<and> element_listeners (exec [Delegate ''click'' ''.btn'' 1, Delegate ''click'' ''.card'' 2,
       Delegate ''click'' ''.btn'' 3] (useDelegation 1 root_div))
       = [(''click'', \<lparr>lid = 1, l_eventType = ''click'', l_selector = ''.card'', l_handler = 2,
                        l_this = 1\<rparr>),
          (''click'', \<lparr>lid = 2, l_eventType = ''click'', l_selector = ''.btn'', l_handler = 3,
                        l_this = 1\<rparr>)]"
  using one_listener_per_pair_colon_free
    [where ops = "[Delegate ''click'' ''.btn'' 1, Delegate ''click'' ''.card'' 2,
                   Delegate ''click'' ''.btn'' 3]"
       and c = 1 and root = root_div]
  by (simp add: colon_free_def eval_defs attached_pairs_def)

lemma removeAll_listeners_filter:
  "distinct ls \<Longrightarrow>
     removeAll_listeners m ls = filter (\<lambda>x. x \<notin> set (teardown_requests m)) ls"
proof (induction m arbitrary: ls)
  case Nil
  then show ?case by (simp add: teardown_requests_def)
next
  case (Cons a m)
  obtain k l where a: "a = (k, l)" by (cases a)
  let ?x = "(key_eventType k, l)"
  have r: "remove1 ?x ls = filter (\<lambda>y. y \<noteq> ?x) ls"
    using Cons.prems by (simp add: distinct_remove1_removeAll removeAll_filter_not_eq) metis
  have "distinct (remove1 ?x ls)"
    using Cons.prems by simp
  from Cons.IH [OF this] show ?case
    by (auto simp: a removeEventListener_def r teardown_requests_def intro: filter_cong)
qed

text \<open>
  Claim C9: for every entry of the map \<^verbatim>\<open>undelegateAll\<close> asks the root to remove the stored
  closure under the part of the key before the first colon, and the listeners attached
  afterwards are exactly those attached before that no such request names; this holds
  after any sequence of operations, in both implementations. Consequently, for every
  Registration whose closure was created for an event type without a colon, the request
  names exactly the pair that \<^verbatim>\<open>delegate\<close> attached, closure and event type, and after
  \<^verbatim>\<open>undelegateAll\<close> the closure is no longer attached.
\<close>

theorem undelegateAll_detaches_colon_free:
  assumes "(k, l) \<in> set (delegatedEvents (exec ops (useDelegation c root)))"
    and "colon_free (l_eventType l)"
  shows "teardown_requests (delegatedEvents (exec ops (useDelegation c root)))
           = map (\<lambda>(key, handler). (takeWhile (\<lambda>ch. ch \<noteq> CHR '':'') key, handler))
               (delegatedEvents (exec ops (useDelegation c root)))
       \<and> element_listeners (undelegateAll (exec ops (useDelegation c root)))
           = filter (\<lambda>x. x \<notin> set (teardown_requests (delegatedEvents (exec ops (useDelegation c root)))))
               (element_listeners (exec ops (useDelegation c root)))
       \<and> element_listeners (undelegateAll_mixin (exec_mixin ops (mixin_init c root)))
           = filter (\<lambda>x. x \<notin> set (teardown_requests
                        (mixin_registry (delegatedEvents (exec_mixin ops (mixin_init c root))))))
               (element_listeners (exec_mixin ops (mixin_init c root)))
       \<and> (key_eventType k, l) = (l_eventType l, l)
       \<and> (l_eventType l, l) \<in> set (element_listeners (exec ops (useDelegation c root)))
       \<and> (l_eventType l, l) \<in> set (teardown_requests (delegatedEvents (exec ops (useDelegation c root))))
       \<and> \<not> attached (undelegateAll (exec ops (useDelegation c root))) l
       \<and> \<not> attached (undelegateAll_mixin (exec_mixin ops (mixin_init c root))) l"
proof -
  let ?st = "exec ops (useDelegation c root)"
  let ?M = "exec_mixin ops (mixin_init c root)"
  have inv: "registry_inv ?st" by (rule registry_inv_reachable)
  have d: "distinct (map (\<lambda>(t, l). lid l) (element_listeners ?st))"
    using inv by (auto simp: registry_inv_def)
  then have dl: "distinct (element_listeners ?st)"
    by (simp add: distinct_map)
  have req: "teardown_requests (delegatedEvents ?st)
      = map (\<lambda>(key, handler). (takeWhile (\<lambda>ch. ch \<noteq> CHR '':'') key, handler)) (delegatedEvents ?st)"
    by (simp add: teardown_requests_def key_eventType_takeWhile)
  have ls: "element_listeners (undelegateAll ?st)
      = filter (\<lambda>x. x \<notin> set (teardown_requests (delegatedEvents ?st))) (element_listeners ?st)"
    using dl by (simp add: undelegateAll_def removeAll_listeners_filter)
  have abs: "mixin_abs ?M = ?st" by (rule mixin_abs_reachable)
  have "element_listeners (undelegateAll_mixin ?M) = element_listeners (undelegateAll (mixin_abs ?M))"
    using element_listeners_mixin_abs [of "undelegateAll_mixin ?M"]
    by (simp only: mixin_abs_undelegateAll)
  moreover have "delegatedEvents ?st = mixin_registry (delegatedEvents ?M)"
    and "element_listeners ?st = element_listeners ?M"
    using abs [symmetric] by (simp_all add: mixin_abs_def)
  ultimately have lsm: "element_listeners (undelegateAll_mixin ?M)
      = filter (\<lambda>x. x \<notin> set (teardown_requests (mixin_registry (delegatedEvents ?M))))
          (element_listeners ?M)"
    using ls abs by simp
  have k: "k = key_of (l_eventType l) (l_selector l)"
    and a: "(l_eventType l, l) \<in> set (element_listeners ?st)"
    using inv assms(1) by (auto simp: registry_inv_def)
  have dec: "key_eventType k = l_eventType l"
    using assms(2) by (simp add: k colon_free_def key_eventType_key_of)
  have inreq: "(l_eventType l, l) \<in> set (teardown_requests (delegatedEvents ?st))"
    using assms(1) dec by (force simp: teardown_requests_def)
  have na: "\<not> attached (undelegateAll ?st) l"
  proof
    assume "attached (undelegateAll ?st) l"
    then obtain t where t: "(t, l) \<in> set (element_listeners (undelegateAll ?st))"
      by (auto simp: attached_def)
    then have in_ls: "(t, l) \<in> set (element_listeners ?st)"
      and out: "(t, l) \<notin> set (teardown_requests (delegatedEvents ?st))"
      by (simp_all add: ls)
    from inv in_ls have "t = l_eventType l"
      by (auto simp: registry_inv_def)
    with inreq out show False by simp
  qed
  have "attached (undelegateAll_mixin ?M) l = attached (undelegateAll ?st) l"
    using attached_mixin_abs [of "undelegateAll_mixin ?M" l]
    by (simp only: mixin_abs_undelegateAll abs)
  with na have nam: "\<not> attached (undelegateAll_mixin ?M) l" by simp
  from req ls lsm dec a inreq na nam show ?thesis by simp
qed

theorem undelegateAll_detaches_colon_free_witness:
  "(''click:.btn'', btn_listener)
     \<in> set (delegatedEvents (exec [Delegate ''click'' ''.btn'' 7, Delegate ''custom:event'' ''.btn'' 8]
          (useDelegation 1 root_div)))
   \<and> colon_free (l_eventType btn_listener)
   \<and> teardown_requests (delegatedEvents (exec [Delegate ''click'' ''.btn'' 7,
          Delegate ''custom:event'' ''.btn'' 8] (useDelegation 1 root_div)))
      = [(''click'', btn_listener),
         (''custom'', \<lparr>lid = 1, l_eventType = ''custom:event'', l_selector = ''.btn'',
                       l_handler = 8, l_this = 1\<rparr>)]
   \<and> element_listeners (exec [Delegate ''click'' ''.btn'' 7, Delegate ''custom:event'' ''.btn'' 8]
          (useDelegation 1 root_div))
      = [(''click'', btn_listener),
         (''custom:event'', \<lparr>lid = 1, l_eventType = ''custom:event'', l_selector = ''.btn'',
                             l_handler = 8, l_this = 1\<rparr>)]
   \<and> element_listeners (undelegateAll (exec [Delegate ''click'' ''.btn'' 7,
          Delegate ''custom:event'' ''.btn'' 8] (useDelegation 1 root_div)))
      = [(''custom:event'', \<lparr>lid = 1, l_eventType = ''custom:event'', l_selector = ''.btn'',
                             l_handler = 8, l_this = 1\<rparr>)]
   \<and> \<not> attached (undelegateAll (exec [Delegate ''click'' ''.btn'' 7,
          Delegate ''custom:event'' ''.btn'' 8] (useDelegation 1 root_div))) btn_listener"
  using undelegateAll_detaches_colon_free [where k = "''click:.btn''" and l = btn_listener
      and ops = "[Delegate ''click'' ''.btn'' 7, Delegate ''custom:event'' ''.btn'' 8]"
      and c = 1 and root = root_div]
  by (simp add: colon_free_def eval_defs btn_listener_def teardown_requests_def attached_def)

section \<open>What the physical listener does with an event\<close>

subsection \<open>Matches outside the root\<close>


lemma closest_self:
  "css s = Some p \<Longrightarrow> nodeType t = ELEMENT_NODE \<Longrightarrow> p t t \<Longrightarrow> closest css t s = Inr (Some t)"
  by (cases t) (simp add: closest_def)



lemma origin_element_of_element: "nodeType t = ELEMENT_NODE \<Longrightarrow> origin_element t = Some t"
  by (simp add: origin_element_def)


lemma delegatedHandler_mixin_cases:
  assumes "target ev = Some t"
  shows "delegatedHandler_mixin css root l ev =
     (if nodeType t = ELEMENT_NODE then delegatedHandler css root l ev else Inl TypeError)"
  using assms by (simp add: delegatedHandler_mixin_def delegatedHandler_def origin_element_def)





subsection \<open>Targets that are not elements\<close>

lemma delegatedHandler_non_element:
  assumes "target ev = Some t" and "nodeType t \<noteq> ELEMENT_NODE"
  shows "delegatedHandler css root l ev =
     (case parentElement t of
        None \<Rightarrow> Inr []
      | Some el \<Rightarrow>
          (case closest css el (l_selector l) of
             Inl e \<Rightarrow> Inl e
           | Inr None \<Rightarrow> Inr []
           | Inr (Some m) \<Rightarrow>
               if contains root m then Inr [Call (l_handler l) (l_this l) ev m] else Inr []))"
  using assms by (simp add: delegatedHandler_def origin_element_def)

lemma delegatedHandler_mixin_non_element:
  "target ev = Some t \<Longrightarrow> nodeType t \<noteq> ELEMENT_NODE
     \<Longrightarrow> delegatedHandler_mixin css root l ev = Inl TypeError"
  by (simp add: delegatedHandler_mixin_def)

text \<open>
  Two further instances in the function-based implementation: a text node without an
  enclosing element, and an element without a matching inclusive ancestor. Both return
  without a call.
\<close>

lemma detached_text_no_call:
  "delegatedHandler class_engine root_div btn_listener (click_on (Some detached_text)) = Inr []"
  by (simp add: fixture_defs eval_defs)

lemma no_match_no_call:
  "delegatedHandler class_engine root_div btn_listener (click_on (Some text_input)) = Inr []"
  by (simp add: fixture_defs eval_defs)

text \<open>
  Claim C6 at a concrete input: a click whose target is the text node inside the button of
  class \<^verbatim>\<open>btn\<close>, with \<^verbatim>\<open>delegate('click', '.btn', h)\<close> registered. The function-based
  implementation resolves the text node to the button and calls the handler with it. The
  object mixin calls \<^verbatim>\<open>closest\<close> on the text node itself and throws a TypeError; the
  handler is not called.
\<close>

theorem mixin_text_node_TypeError:
  "nodeType save_text = TEXT_NODE
   \<and> parentElement save_text = Some save_btn
   \<and> dispatchEvent class_engine (delegate ''click'' ''.btn'' 7 (useDelegation 1 root_div))
       (click_on (Some save_text))
     = [(btn_listener, Inr [Call 7 1 (click_on (Some save_text)) save_btn])]
   \<and> dispatchEvent_mixin class_engine (delegate_mixin ''click'' ''.btn'' 7 (mixin_init 1 root_div))
       (click_on (Some save_text))
     = [(btn_listener, Inl TypeError)]"
  by (simp add: fixture_defs eval_defs)

section \<open>Delivery to the listener of a Registration\<close>

lemma cid_apply_op [simp]: "cid (apply_op op this) = cid this"
  by (cases op) (simp_all add: delegate_def undelegate_def undelegateAll_def Let_def split: option.splits)

lemma element_apply_op [simp]: "element (apply_op op this) = element this"
  by (cases op) (simp_all add: delegate_def undelegate_def undelegateAll_def Let_def split: option.splits)

lemma next_lid_apply_op: "next_lid this \<le> next_lid (apply_op op this)"
  by (cases op) (simp_all add: delegate_def undelegate_def undelegateAll_def Let_def split: option.splits)

lemma cid_exec [simp]: "cid (exec ops this) = cid this"
  unfolding exec_def by (induction ops arbitrary: this) simp_all

lemma element_exec [simp]: "element (exec ops this) = element this"
  unfolding exec_def by (induction ops arbitrary: this) simp_all

lemma next_lid_exec: "next_lid this \<le> next_lid (exec ops this)"
  unfolding exec_def
proof (induction ops arbitrary: this)
  case Nil
  then show ?case by simp
next
  case (Cons op ops)
  from next_lid_apply_op [of this op] Cons [of "apply_op op this"] show ?case by simp
qed

lemma cid_useDelegation [simp]: "cid (useDelegation c root) = c"
  and element_useDelegation [simp]: "element (useDelegation c root) = root"
  by (simp_all add: useDelegation_def)

lemma set_removeAll_listeners_subset: "set (removeAll_listeners m ls) \<subseteq> set ls"
proof (induction m arbitrary: ls)
  case Nil
  then show ?case by simp
next
  case (Cons a m)
  obtain k l where a: "a = (k, l)" by (cases a)
  have "set (removeAll_listeners m (remove1 (key_eventType k, l) ls))
      \<subseteq> set (remove1 (key_eventType k, l) ls)"
    by (rule Cons.IH)
  also have "\<dots> \<subseteq> set ls"
    by (rule set_remove1_subset)
  finally show ?case
    by (simp add: a removeEventListener_def)
qed

lemma attached_apply_op:
  assumes "attached (apply_op op this) l"
  shows "attached this l \<or> next_lid this \<le> lid l"
proof (cases op)
  case (Delegate e s h)
  with assms show ?thesis
    by (auto simp: attached_def delegate_def Let_def removeEventListener_def
        split: option.splits dest: set_remove1_subset [THEN subsetD])
next
  case (Undelegate e s)
  with assms show ?thesis
    by (auto simp: attached_def undelegate_def Let_def removeEventListener_def
        split: option.splits dest: set_remove1_subset [THEN subsetD])
next
  case UndelegateAll
  with assms show ?thesis
    using set_removeAll_listeners_subset [of "delegatedEvents this" "element_listeners this"]
    by (auto simp: attached_def undelegateAll_def)
qed

lemma attached_exec:
  "attached (exec ops this) l \<Longrightarrow> attached this l \<or> next_lid this \<le> lid l"
  unfolding exec_def
proof (induction ops arbitrary: this)
  case Nil
  then show ?case by simp
next
  case (Cons op ops)
  then have "attached (apply_op op this) l \<or> next_lid (apply_op op this) \<le> lid l"
    by simp
  then show ?case
    using attached_apply_op [of op this l] next_lid_apply_op [of this op] by auto
qed

lemma runs_of_attached:
  assumes "registry_inv this" and "(ev_type ev, l) \<in> set (element_listeners this)"
  shows "runs_of l (dispatchEvent css this ev) = [delegatedHandler css (element this) l ev]"
proof -
  have d: "distinct (map (\<lambda>(t, l). lid l) (element_listeners this))"
    using assms(1) by (simp add: registry_inv_def)
  have "filter (\<lambda>(l', r). l' = l) (dispatchEvent css this ev)
      = map (\<lambda>(t, l). (l, delegatedHandler css (element this) l ev))
          (filter (\<lambda>(t, l'). t = ev_type ev)
             (filter (\<lambda>(t, l'). l' = l) (element_listeners this)))"
    unfolding dispatchEvent_def filter_map filter_filter
    by (rule arg_cong2 [where f = map]) (auto intro!: filter_cong simp: comp_def)
  also have "\<dots> = [(l, delegatedHandler css (element this) l ev)]"
    by (simp add: filter_listener_distinct [OF d assms(2)])
  finally show ?thesis by (simp add: runs_of_def)
qed

lemma runs_of_not_attached:
  assumes "\<not> attached this l"
  shows "runs_of l (dispatchEvent css this ev) = []"
  using assms
  by (force simp: runs_of_def dispatchEvent_def attached_def filter_empty_conv)

lemma new_closure_mixin_abs [simp]: "new_closure (mixin_abs this) e s h = new_closure this e s h"
  by (simp add: new_closure_def mixin_abs_def)

lemma element_mixin_abs [simp]: "element (mixin_abs this) = element this"
  by (simp add: mixin_abs_def)

lemma dispatchEvent_mixin_element:
  assumes "target ev = Some t" and "nodeType t = ELEMENT_NODE"
  shows "dispatchEvent_mixin css this ev = dispatchEvent css (mixin_abs this) ev"
  using delegatedHandler_mixin_cases [OF assms(1), of css] assms(2)
  by (simp add: dispatchEvent_mixin_def dispatchEvent_def)

lemma map_of_delegate:
  "map_of (delegatedEvents (delegate e s h this)) (key_of e s) = Some (new_closure this e s h)"
  by (simp add: delegatedEvents_delegate AList.update_conv')

lemma new_closure_attached:
  "registry_inv this \<Longrightarrow> (e, new_closure this e s h) \<in> set (element_listeners (delegate e s h this))"
  by (simp add: element_listeners_delegate)

lemma element_delegate [simp]: "element (delegate e s h this) = element this"
  using element_apply_op [of "Delegate e s h" this] by simp

lemma delegate_dispatch_nearest:
  assumes "registry_inv this" and "ev_type ev = e" and "target ev = Some t0"
    and "origin_element t0 = Some el" and "closest css el s = Inr (Some m)"
    and "contains (element this) m"
  shows "runs_of (new_closure this e s h) (dispatchEvent css (delegate e s h this) ev)
         = [Inr [Call h (cid this) ev m]]"
proof -
  have "registry_inv (delegate e s h this)"
    using assms(1) by (rule registry_inv_delegate)
  moreover have "(ev_type ev, new_closure this e s h) \<in> set (element_listeners (delegate e s h this))"
    using assms(1,2) by (simp add: new_closure_attached)
  ultimately have "runs_of (new_closure this e s h) (dispatchEvent css (delegate e s h this) ev)
      = [delegatedHandler css (element this) (new_closure this e s h) ev]"
    by (simp add: runs_of_attached)
  also have "\<dots> = [Inr [Call h (cid this) ev m]]"
    using assms(3-6) by (simp add: delegatedHandler_def)
  finally show ?thesis .
qed

lemma calls_of_append: "calls_of (xs @ ys) = calls_of xs @ calls_of ys"
  by (simp add: calls_of_def)

lemma delegatedHandler_calls:
  "delegatedHandler css root l ev = Inr cs \<Longrightarrow> cl \<in> set cs \<Longrightarrow> c_handler cl = l_handler l"
  by (auto simp: delegatedHandler_def split: option.splits sum.splits if_splits)

lemma calls_of_dispatch_handler:
  assumes "cl \<in> set (calls_of (map (\<lambda>(t, l). (l, delegatedHandler css root l ev)) xs))"
  shows "\<exists>(t, l) \<in> set xs. c_handler cl = l_handler l"
  using assms
proof (induction xs)
  case Nil
  then show ?case by (simp add: calls_of_def)
next
  case (Cons x xs)
  obtain t l where x: "x = (t, l)" by (cases x)
  from Cons.prems have "cl \<in> set (calls_of [(l, delegatedHandler css root l ev)])
      \<or> cl \<in> set (calls_of (map (\<lambda>(t, l). (l, delegatedHandler css root l ev)) xs))"
    by (simp add: x calls_of_def)
  then show ?case
  proof
    assume "cl \<in> set (calls_of [(l, delegatedHandler css root l ev)])"
    then have "c_handler cl = l_handler l"
      using delegatedHandler_calls [of css root l ev _ cl]
      by (cases "delegatedHandler css root l ev") (simp_all add: calls_of_def)
    then show ?thesis by (auto simp: x)
  next
    assume "cl \<in> set (calls_of (map (\<lambda>(t, l). (l, delegatedHandler css root l ev)) xs))"
    with Cons.IH show ?thesis by auto
  qed
qed

lemma calls_of_other_handlers:
  assumes "\<forall>(t, l) \<in> set xs. l_handler l \<noteq> h"
  shows "filter (\<lambda>cl. c_handler cl = h)
           (calls_of (map (\<lambda>(t, l). (l, delegatedHandler css root l ev)) (filter P xs))) = []"
proof -
  have "c_handler cl \<noteq> h"
    if "cl \<in> set (calls_of (map (\<lambda>(t, l). (l, delegatedHandler css root l ev)) (filter P xs)))"
    for cl
    using calls_of_dispatch_handler [OF that] assms by fastforce
  then show ?thesis by (simp add: filter_empty_conv)
qed

lemma calls_of_Cons:
  "calls_of ((l, r) # rs) = (case r of Inl e \<Rightarrow> [] | Inr cs \<Rightarrow> cs) @ calls_of rs"
  by (simp add: calls_of_def)

lemma dispatch_only_handler:
  assumes inv: "registry_inv this"
    and att: "(ev_type ev, l) \<in> set (element_listeners this)"
    and others: "\<forall>(t', l') \<in> set (element_listeners this). l' \<noteq> l \<longrightarrow> l_handler l' \<noteq> l_handler l"
    and run: "delegatedHandler css (element this) l ev = Inr cs"
  shows "filter (\<lambda>cl. c_handler cl = l_handler l) (calls_of (dispatchEvent css this ev)) = cs"
proof -
  have d: "distinct (map (\<lambda>(t, l). lid l) (element_listeners this))"
    using inv by (simp add: registry_inv_def)
  from att obtain pre post where ls: "element_listeners this = pre @ (ev_type ev, l) # post"
    by (auto dest: split_list)
  have ne: "l' \<noteq> l" if "(t', l') \<in> set pre \<union> set post" for t' l'
    using d that unfolding ls by force
  have others': "l_handler l' \<noteq> l_handler l"
    if "(t', l') \<in> set (element_listeners this)" and "l' \<noteq> l" for t' l'
    using others that by blast
  have pre: "\<forall>(t', l') \<in> set pre. l_handler l' \<noteq> l_handler l"
    using others' ne unfolding ls by fastforce
  have post: "\<forall>(t', l') \<in> set post. l_handler l' \<noteq> l_handler l"
    using others' ne unfolding ls by fastforce
  have own: "filter (\<lambda>cl. c_handler cl = l_handler l) cs = cs"
    using delegatedHandler_calls [OF run] by (simp add: filter_id_conv)
  show ?thesis
    unfolding dispatchEvent_def ls
    using calls_of_other_handlers [OF pre, of css "element this" ev]
      calls_of_other_handlers [OF post, of css "element this" ev] own run
    by (simp add: calls_of_append calls_of_Cons)
qed

text \<open>
  What the closure of a Registration does, after any sequence of operations: on an event
  of its event type whose target is an element, when \<^verbatim>\<open>closest\<close> finds a nearest matching
  inclusive ancestor inside the root, the closure runs exactly once and calls its handler
  exactly once, with the event, that ancestor and the controller as \<^verbatim>\<open>this\<close>, in both
  implementations. It is the only call of the handler in the delivery when no other
  attached closure holds the same handler.
\<close>

lemma registration_listener_runs_once:
  assumes "(k, l) \<in> set (delegatedEvents (exec ops (useDelegation c root)))"
    and "ev_type ev = l_eventType l" and "target ev = Some t" and "nodeType t = ELEMENT_NODE"
    and "closest css t (l_selector l) = Inr (Some m)" and "contains root m"
  shows "runs_of l (dispatchEvent css (exec ops (useDelegation c root)) ev)
           = [Inr [Call (l_handler l) c ev m]]"
    and "runs_of l (dispatchEvent_mixin css (exec_mixin ops (mixin_init c root)) ev)
           = [Inr [Call (l_handler l) c ev m]]"
    and "(\<forall>(t', l') \<in> set (element_listeners (exec ops (useDelegation c root))).
               l' \<noteq> l \<longrightarrow> l_handler l' \<noteq> l_handler l)
            \<Longrightarrow> filter (\<lambda>cl. c_handler cl = l_handler l)
                  (calls_of (dispatchEvent css (exec ops (useDelegation c root)) ev))
                = [Call (l_handler l) c ev m]"
proof -
  let ?st = "exec ops (useDelegation c root)"
  let ?M = "exec_mixin ops (mixin_init c root)"
  have inv: "registry_inv ?st" by (rule registry_inv_reachable)
  have att: "(ev_type ev, l) \<in> set (element_listeners ?st)"
    using inv assms(1,2) by (auto simp: registry_inv_def)
  have bound: "l_this l = c"
    using inv att by (auto simp: registry_inv_def)
  have dh: "delegatedHandler css (element ?st) l ev = Inr [Call (l_handler l) c ev m]"
    using assms(3-6) bound by (simp add: delegatedHandler_def origin_element_of_element)
  show run: "runs_of l (dispatchEvent css ?st ev) = [Inr [Call (l_handler l) c ev m]]"
    using runs_of_attached [OF inv att, of css] dh by simp
  have "dispatchEvent_mixin css ?M ev = dispatchEvent css ?st ev"
    using assms(3,4) by (simp add: dispatchEvent_mixin_element mixin_abs_reachable)
  with run show "runs_of l (dispatchEvent_mixin css ?M ev) = [Inr [Call (l_handler l) c ev m]]"
    by simp
  show "filter (\<lambda>cl. c_handler cl = l_handler l) (calls_of (dispatchEvent css ?st ev))
      = [Call (l_handler l) c ev m]"
    if "\<forall>(t', l') \<in> set (element_listeners ?st). l' \<noteq> l \<longrightarrow> l_handler l' \<noteq> l_handler l"
    using inv att that dh by (rule dispatch_only_handler)
qed

text \<open>
  Claim C1 at a concrete input: \<^verbatim>\<open>delegate('nav:a', 'link', h1)\<close>, then
  \<^verbatim>\<open>delegate('nav', 'a:link', h0)\<close>, then \<^verbatim>\<open>delegate('nav:a', 'link', h1)\<close> again. The map
  holds one Registration, for the pair \<^verbatim>\<open>('nav:a', 'link')\<close> with the handler 1. An event
  of type \<^verbatim>\<open>nav:a\<close> whose target is a \<^verbatim>\<open>link\<close> element inside the root, which matches
  the selector, calls the handler 1 twice, in both implementations: the closure of the
  first call was never detached.
\<close>

theorem stale_closure_calls_handler_twice:
  "delegatedEvents
     (exec [Delegate ''nav:a'' ''link'' 1, Delegate ''nav'' ''a:link'' 0, Delegate ''nav:a'' ''link'' 1]
        (useDelegation 1 root_div))
     = [(''nav:a:link'',
         \<lparr>lid = 2, l_eventType = ''nav:a'', l_selector = ''link'', l_handler = 1, l_this = 1\<rparr>)]
   \<and> nodeType link_el = ELEMENT_NODE
   \<and> contains root_div link_el
   \<and> closest class_engine link_el ''link'' = Inr (Some link_el)
   \<and> calls_of (dispatchEvent class_engine
        (exec [Delegate ''nav:a'' ''link'' 1, Delegate ''nav'' ''a:link'' 0,
               Delegate ''nav:a'' ''link'' 1] (useDelegation 1 root_div))
        \<lparr>ev_id = 0, ev_type = ''nav:a'', target = Some link_el\<rparr>)
     = [Call 1 1 \<lparr>ev_id = 0, ev_type = ''nav:a'', target = Some link_el\<rparr> link_el,
        Call 1 1 \<lparr>ev_id = 0, ev_type = ''nav:a'', target = Some link_el\<rparr> link_el]
   \<and> calls_of (dispatchEvent_mixin class_engine
        (exec_mixin [Delegate ''nav:a'' ''link'' 1, Delegate ''nav'' ''a:link'' 0,
               Delegate ''nav:a'' ''link'' 1] (mixin_init 1 root_div))
        \<lparr>ev_id = 0, ev_type = ''nav:a'', target = Some link_el\<rparr>)
     = [Call 1 1 \<lparr>ev_id = 0, ev_type = ''nav:a'', target = Some link_el\<rparr> link_el,
        Call 1 1 \<lparr>ev_id = 0, ev_type = ''nav:a'', target = Some link_el\<rparr> link_el]"
  by (simp add: fixture_defs eval_defs)

text \<open>
  The same double call after a teardown: \<^verbatim>\<open>delegate('custom:event', '.btn', h)\<close>,
  \<^verbatim>\<open>undelegateAll()\<close>, \<^verbatim>\<open>delegate('custom:event', '.btn', h)\<close>.
\<close>

lemma reconnect_calls_handler_twice:
  "delegatedEvents
     (exec [Delegate ''custom:event'' ''.btn'' 7, UndelegateAll, Delegate ''custom:event'' ''.btn'' 7]
        (useDelegation 1 root_div))
     = [(''custom:event:.btn'',
         \<lparr>lid = 1, l_eventType = ''custom:event'', l_selector = ''.btn'', l_handler = 7,
            l_this = 1\<rparr>)]
   \<and> calls_of (dispatchEvent class_engine
        (exec [Delegate ''custom:event'' ''.btn'' 7, UndelegateAll,
               Delegate ''custom:event'' ''.btn'' 7] (useDelegation 1 root_div))
        \<lparr>ev_id = 0, ev_type = ''custom:event'', target = Some save_btn\<rparr>)
     = [Call 7 1 \<lparr>ev_id = 0, ev_type = ''custom:event'', target = Some save_btn\<rparr> save_btn,
        Call 7 1 \<lparr>ev_id = 0, ev_type = ''custom:event'', target = Some save_btn\<rparr> save_btn]"
  by (simp add: fixture_defs eval_defs)

section \<open>Replacement of a Registration\<close>

text \<open>
  Claim C3 at a concrete input: \<^verbatim>\<open>delegate('nav:a', 'link', h1)\<close>, then
  \<^verbatim>\<open>delegate('nav', 'a:link', h0)\<close>, then \<^verbatim>\<open>delegate('nav:a', 'link', h2)\<close>. The two
  pairs share the key \<^verbatim>\<open>nav:a:link\<close>. The map holds one Registration, with the handler 2,
  but no call detached anything: each asked the root to remove the stored closure under
  the event type of the new call. The closure of the first call is still attached, and an
  event of type \<^verbatim>\<open>nav:a\<close> on a \<^verbatim>\<open>link\<close> element calls the old handler 1 and then the
  new handler 2, in both implementations.
\<close>

theorem stale_listener_after_key_collision:
  "delegatedEvents
     (exec [Delegate ''nav:a'' ''link'' 1, Delegate ''nav'' ''a:link'' 0, Delegate ''nav:a'' ''link'' 2]
        (useDelegation 1 root_div))
     = [(''nav:a:link'',
         \<lparr>lid = 2, l_eventType = ''nav:a'', l_selector = ''link'', l_handler = 2, l_this = 1\<rparr>)]
   \<and> element_listeners
     (exec [Delegate ''nav:a'' ''link'' 1, Delegate ''nav'' ''a:link'' 0, Delegate ''nav:a'' ''link'' 2]
        (useDelegation 1 root_div))
     = [(''nav:a'',
         \<lparr>lid = 0, l_eventType = ''nav:a'', l_selector = ''link'', l_handler = 1, l_this = 1\<rparr>),
        (''nav'',
         \<lparr>lid = 1, l_eventType = ''nav'', l_selector = ''a:link'', l_handler = 0, l_this = 1\<rparr>),
        (''nav:a'',
         \<lparr>lid = 2, l_eventType = ''nav:a'', l_selector = ''link'', l_handler = 2, l_this = 1\<rparr>)]
   \<and> attached
     (exec [Delegate ''nav:a'' ''link'' 1, Delegate ''nav'' ''a:link'' 0, Delegate ''nav:a'' ''link'' 2]
        (useDelegation 1 root_div))
     \<lparr>lid = 0, l_eventType = ''nav:a'', l_selector = ''link'', l_handler = 1, l_this = 1\<rparr>
   \<and> calls_of (dispatchEvent class_engine
        (exec [Delegate ''nav:a'' ''link'' 1, Delegate ''nav'' ''a:link'' 0,
               Delegate ''nav:a'' ''link'' 2] (useDelegation 1 root_div))
        \<lparr>ev_id = 0, ev_type = ''nav:a'', target = Some link_el\<rparr>)
     = [Call 1 1 \<lparr>ev_id = 0, ev_type = ''nav:a'', target = Some link_el\<rparr> link_el,
        Call 2 1 \<lparr>ev_id = 0, ev_type = ''nav:a'', target = Some link_el\<rparr> link_el]
   \<and> calls_of (dispatchEvent_mixin class_engine
        (exec_mixin [Delegate ''nav:a'' ''link'' 1, Delegate ''nav'' ''a:link'' 0,
               Delegate ''nav:a'' ''link'' 2] (mixin_init 1 root_div))
        \<lparr>ev_id = 0, ev_type = ''nav:a'', target = Some link_el\<rparr>)
     = [Call 1 1 \<lparr>ev_id = 0, ev_type = ''nav:a'', target = Some link_el\<rparr> link_el,
        Call 2 1 \<lparr>ev_id = 0, ev_type = ''nav:a'', target = Some link_el\<rparr> link_el]"
  by (simp add: fixture_defs eval_defs attached_def)

text \<open>
  When the closure stored under the key was created for the event type of the new call,
  \<^verbatim>\<open>delegate\<close> does detach it: that closure is never attached again and never runs
  again, and the new closure is stored, attached and runs.
\<close>

lemma redelegate_replaces_listener:
  assumes st0: "st0 = exec ops (useDelegation c root)"
    and st1: "st1 = delegate e s h st0"
    and old: "map_of (delegatedEvents st0) (key_of e s) = Some old"
    and ty: "l_eventType old = e"
  shows "distinct (map fst (delegatedEvents st1))
       \<and> map_of (delegatedEvents st1) (key_of e s) = Some (new_closure st0 e s h)
       \<and> l_handler (new_closure st0 e s h) = h
       \<and> attached st0 old
       \<and> (\<forall>later. \<not> attached (exec later st1) old)
       \<and> (\<forall>later css ev. runs_of old (dispatchEvent css (exec later st1) ev) = [])
       \<and> (\<forall>later. \<not> attached (exec_mixin later
               (delegate_mixin e s h (exec_mixin ops (mixin_init c root)))) old)
       \<and> (ev_type ev = e \<longrightarrow> target ev = Some t \<longrightarrow> nodeType t = ELEMENT_NODE
            \<longrightarrow> closest css t s = Inr (Some m) \<longrightarrow> contains root m
            \<longrightarrow> runs_of (new_closure st0 e s h) (dispatchEvent css st1 ev) = [Inr [Call h c ev m]])"
proof -
  have inv0: "registry_inv st0"
    unfolding st0 by (rule registry_inv_reachable)
  have inv1: "registry_inv st1"
    unfolding st1 using inv0 by (rule registry_inv_delegate)
  have d0: "distinct (map (\<lambda>(t, l). lid l) (element_listeners st0))"
    and L0: "\<And>t l. (t, l) \<in> set (element_listeners st0) \<Longrightarrow> t = l_eventType l \<and> lid l < next_lid st0"
    using inv0 by (auto simp: registry_inv_def)
  have in_m: "(key_of e s, old) \<in> set (delegatedEvents st0)"
    using old by (rule map_of_SomeD)
  then have att0: "(e, old) \<in> set (element_listeners st0)"
    using inv0 ty by (auto simp: registry_inv_def)
  then have lid_old: "lid old < next_lid st0"
    using L0 by blast
  have ls1: "element_listeners st1
      = removeEventListener e old (element_listeners st0) @ [(e, new_closure st0 e s h)]"
    unfolding st1 using inv0 old by (simp add: element_listeners_delegate)
  have not1: "\<not> attached st1 old"
  proof
    assume "attached st1 old"
    then obtain t where "(t, old) \<in> set (element_listeners st1)"
      by (auto simp: attached_def)
    then have "(t, old) \<in> set (element_listeners st0) - {(e, old)}"
      using lid_old d0 by (auto simp: ls1 set_removeEventListener)
    with L0 ty show False by auto
  qed
  have next1: "next_lid st1 = Suc (next_lid st0)"
    unfolding st1 by (simp add: delegate_def Let_def)
  have never: "\<not> attached (exec later st1) old" for later
    using attached_exec [of later st1 old] not1 lid_old next1 by auto
  have runs: "runs_of old (dispatchEvent css' (exec later st1) ev') = []" for later css' ev'
    using never by (rule runs_of_not_attached)
  have "mixin_abs (exec_mixin later (delegate_mixin e s h (exec_mixin ops (mixin_init c root))))
      = exec later st1" for later
    unfolding st1 st0 by (simp add: mixin_abs_exec mixin_abs_delegate mixin_abs_init)
  then have neverm: "\<not> attached (exec_mixin later
      (delegate_mixin e s h (exec_mixin ops (mixin_init c root)))) old" for later
    using never [of later]
      attached_mixin_abs
        [of "exec_mixin later (delegate_mixin e s h (exec_mixin ops (mixin_init c root)))" old]
    by simp
  have new: "runs_of (new_closure st0 e s h) (dispatchEvent css st1 ev) = [Inr [Call h c ev m]]"
    if "ev_type ev = e" "target ev = Some t" "nodeType t = ELEMENT_NODE"
      "closest css t s = Inr (Some m)" "contains root m"
  proof -
    have "contains (element st0) m" using that(5) by (simp add: st0)
    from delegate_dispatch_nearest [OF inv0 that(1,2) origin_element_of_element [OF that(3)]
        that(4) this, of h]
    show ?thesis by (simp add: st1 st0)
  qed
  have "distinct (map fst (delegatedEvents st1))"
    using inv1 by (simp add: registry_inv_def)
  moreover have "map_of (delegatedEvents st1) (key_of e s) = Some (new_closure st0 e s h)"
    unfolding st1 by (rule map_of_delegate)
  moreover have "attached st0 old"
    using att0 by (force simp: attached_def)
  ultimately show ?thesis
    using never runs neverm new by simp
qed

lemma redelegate_replaces_listener_instance:
  "map_of (delegatedEvents (exec [Delegate ''click'' ''.btn'' 1] (useDelegation 1 root_div)))
      (key_of ''click'' ''.btn'')
     = Some \<lparr>lid = 0, l_eventType = ''click'', l_selector = ''.btn'', l_handler = 1, l_this = 1\<rparr>
   \<and> \<not> attached (delegate ''click'' ''.btn'' 2
          (exec [Delegate ''click'' ''.btn'' 1] (useDelegation 1 root_div)))
        \<lparr>lid = 0, l_eventType = ''click'', l_selector = ''.btn'', l_handler = 1, l_this = 1\<rparr>
   \<and> dispatchEvent class_engine
        (delegate ''click'' ''.btn'' 2
          (exec [Delegate ''click'' ''.btn'' 1] (useDelegation 1 root_div)))
        (click_on (Some save_btn))
     = [(\<lparr>lid = 1, l_eventType = ''click'', l_selector = ''.btn'', l_handler = 2, l_this = 1\<rparr>,
         Inr [Call 2 1 (click_on (Some save_btn)) save_btn])]"
  using redelegate_replaces_listener [OF refl refl, where ops = "[Delegate ''click'' ''.btn'' 1]" and c = 1
      and root = root_div and e = "''click''" and s = "''.btn''" and h = 2
      and old = "\<lparr>lid = 0, l_eventType = ''click'', l_selector = ''.btn'', l_handler = 1,
                  l_this = 1\<rparr>"
      and ev = "click_on (Some save_btn)" and t = save_btn and css = class_engine
      and m = save_btn]
  by (simp add: fixture_defs eval_defs attached_def)

end
